theory Spec2Isabelle
  imports Complex_Main "HOL-Library.Multiset"
begin

section \<open>Data model\<close>

text \<open>
  JavaScript numbers are modelled exactly: pixel coordinates and box sizes, which the
  detector only ever produces from loop counters, are \<^typ>\<open>int\<close>; text coordinates,
  font sizes and scale factors are \<^typ>\<open>rat\<close>. Rounding of IEEE doubles, NaN and
  infinities are outside the model.
\<close>

type_synonym transform = "rat \<times> rat \<times> rat \<times> rat \<times> rat \<times> rat"

definition tr0 :: "transform \<Rightarrow> rat" where
  "tr0 t = (case t of (a, b, c, d, e, f) \<Rightarrow> a)"

definition tr3 :: "transform \<Rightarrow> rat" where
  "tr3 t = (case t of (a, b, c, d, e, f) \<Rightarrow> d)"

definition tr4 :: "transform \<Rightarrow> rat" where
  "tr4 t = (case t of (a, b, c, d, e, f) \<Rightarrow> e)"

definition tr5 :: "transform \<Rightarrow> rat" where
  "tr5 t = (case t of (a, b, c, d, e, f) \<Rightarrow> f)"

text \<open>One entry of \<open>textContent.items\<close> as PDF.js delivers it. \<open>item.width\<close> may be
  absent (\<open>None\<close>).\<close>

record textItem =
  str :: string
  t_width :: "rat option"
  t_transform :: transform
  t_fontName :: string

text \<open>One entry of a redaction's \<open>hiddenText\<close> (the object pushed on \<open>foundText\<close>).\<close>

record foundItem =
  h_text :: string
  h_x :: rat
  h_y :: rat
  h_width :: rat
  h_height :: rat
  h_fontSize :: rat
  h_transform :: transform
  h_fontName :: string
  h_index :: nat

text \<open>A detected redaction, with the fields \<open>detectRedactions\<close> gives it.\<close>

record redaction =
  r_page :: nat
  r_x :: int
  r_y :: int
  r_width :: int
  r_height :: int
  r_pdfX :: rat
  r_pdfY :: rat
  r_pdfWidth :: rat
  r_pdfHeight :: rat
  hiddenText :: "foundItem list"

text \<open>The object literal that \<open>detectRedactions\<close> pushes for a surviving box.\<close>

definition newRedaction :: "rat \<Rightarrow> nat \<Rightarrow> int \<Rightarrow> int \<Rightarrow> int \<Rightarrow> int \<Rightarrow> redaction" where
  "newRedaction scale pageNum minX minY rectWidth rectHeight =
     \<lparr> r_page = pageNum, r_x = minX, r_y = minY, r_width = rectWidth, r_height = rectHeight,
       r_pdfX = of_int minX / scale, r_pdfY = of_int minY / scale,
       r_pdfWidth = of_int rectWidth / scale, r_pdfHeight = of_int rectHeight / scale,
       hiddenText = [] \<rparr>"

section \<open>mergeRedactions\<close>

text \<open>The test of the inner loop: the accumulated box, grown by \<open>gap = 10\<close> on every
  side, meets the other box.\<close>

definition gap :: int where
  "gap = 10"

definition adjacent :: "redaction \<Rightarrow> redaction \<Rightarrow> bool" where
  "adjacent current other \<longleftrightarrow>
     r_x current - gap \<le> r_x other + r_width other \<and>
     r_x current + r_width current + gap \<ge> r_x other \<and>
     r_y current - gap \<le> r_y other + r_height other \<and>
     r_y current + r_height current + gap \<ge> r_y other"

text \<open>The body of the \<open>if\<close>: \<open>current\<close> becomes the bounding box of both.\<close>

definition absorb :: "rat \<Rightarrow> redaction \<Rightarrow> redaction \<Rightarrow> redaction" where
  "absorb scale current other =
     (let newX = min (r_x current) (r_x other);
          newY = min (r_y current) (r_y other);
          newMaxX = max (r_x current + r_width current) (r_x other + r_width other);
          newMaxY = max (r_y current + r_height current) (r_y other + r_height other)
      in current\<lparr> r_x := newX, r_y := newY,
                   r_width := newMaxX - newX, r_height := newMaxY - newY,
                   r_pdfX := of_int newX / scale, r_pdfY := of_int newY / scale,
                   r_pdfWidth := of_int (newMaxX - newX) / scale,
                   r_pdfHeight := of_int (newMaxY - newY) / scale \<rparr>)"

text \<open>The \<open>for j\<close> loop: one pass over all rectangles, from index \<open>j\<close> on. The state is
  \<open>(current, used, didMerge)\<close>.\<close>

function mergePass ::
  "rat \<Rightarrow> redaction list \<Rightarrow> nat \<Rightarrow> redaction \<times> nat set \<times> bool \<Rightarrow> redaction \<times> nat set \<times> bool"
where
  "mergePass scale redactions j (current, used, didMerge) =
     (if j < length redactions then
        (if j \<in> used then mergePass scale redactions (j + 1) (current, used, didMerge)
         else if adjacent current (redactions ! j)
           then mergePass scale redactions (j + 1)
                  (absorb scale current (redactions ! j), insert j used, True)
           else mergePass scale redactions (j + 1) (current, used, didMerge))
      else (current, used, didMerge))"
  by pat_completeness auto
termination
  by (relation "measure (\<lambda>(scale, redactions, j, st). length redactions - j)") auto

declare mergePass.simps [simp del]

lemma mergePass_used:
  "mergePass scale rs j (c, u, d) = (c', u', d') \<Longrightarrow>
     u \<subseteq> u' \<and> u' \<subseteq> u \<union> {j..<length rs} \<and> (d' \<longrightarrow> d \<or> u \<noteq> u') \<and> (d \<longrightarrow> d')"
proof (induction scale rs j "(c, u, d)" arbitrary: c u d rule: mergePass.induct)
  case (1 scale rs j c u d)
  show ?case
  proof (cases "j < length rs")
    case False
    with "1.prems" show ?thesis by (simp add: mergePass.simps)
  next
    case lt: True
    show ?thesis
    proof (cases "j \<in> u")
      case True
      with lt "1.prems" have "mergePass scale rs (j + 1) (c, u, d) = (c', u', d')"
        by (simp add: mergePass.simps)
      from "1.hyps"(1)[OF lt True this] show ?thesis by auto
    next
      case nu: False
      show ?thesis
      proof (cases "adjacent c (rs ! j)")
        case True
        with lt nu "1.prems"
        have "mergePass scale rs (j + 1) (absorb scale c (rs ! j), insert j u, True) = (c', u', d')"
          by (simp add: mergePass.simps)
        from "1.hyps"(2)[OF lt nu True this] lt nu show ?thesis by auto
      next
        case False
        with lt nu "1.prems" have "mergePass scale rs (j + 1) (c, u, d) = (c', u', d')"
          by (simp add: mergePass.simps)
        from "1.hyps"(3)[OF lt nu False this] show ?thesis by auto
      qed
    qed
  qed
qed

text \<open>The \<open>while (didMerge)\<close> loop: passes are repeated until one absorbs nothing.\<close>

function mergeLoop :: "rat \<Rightarrow> redaction list \<Rightarrow> redaction \<times> nat set \<Rightarrow> redaction \<times> nat set"
where
  "mergeLoop scale redactions (current, used) =
     (case mergePass scale redactions 0 (current, used, False) of
        (current', used', didMerge) \<Rightarrow>
          if didMerge then mergeLoop scale redactions (current', used')
          else (current', used'))"
  by pat_completeness auto
termination
proof (relation "measure (\<lambda>(scale, redactions, current, used). card ({..<length redactions} - used))", goal_cases)
  case 1
  show ?case by simp
next
  case (2 scale redactions current used x y xa ya)
  then have "mergePass scale redactions 0 (current, used, False) = (x, xa, True)"
    by simp
  from mergePass_used[OF this]
  have s: "used \<subseteq> xa" "xa \<subseteq> used \<union> {0..<length redactions}" "used \<noteq> xa"
    by auto
  from s(1,3) obtain k where "k \<in> xa" "k \<notin> used"
    by blast
  with s(2) have k: "k \<in> xa" "k \<notin> used" "k < length redactions"
    by auto
  with s have "{..<length redactions} - xa \<subset> {..<length redactions} - used"
    by blast
  then have "card ({..<length redactions} - xa) < card ({..<length redactions} - used)"
    by (intro psubset_card_mono) auto
  then show ?case
    by simp
qed

declare mergeLoop.simps [simp del]

text \<open>The \<open>for i\<close> loop. The state is \<open>(merged, used)\<close>.\<close>

function mergeFrom ::
  "rat \<Rightarrow> redaction list \<Rightarrow> nat \<Rightarrow> redaction list \<times> nat set \<Rightarrow> redaction list \<times> nat set"
where
  "mergeFrom scale redactions i (merged, used) =
     (if i < length redactions then
        (if i \<in> used then mergeFrom scale redactions (i + 1) (merged, used)
         else (case mergeLoop scale redactions (redactions ! i, insert i used) of
                 (current, used') \<Rightarrow>
                   mergeFrom scale redactions (i + 1) (merged @ [current], used')))
      else (merged, used))"
  by pat_completeness auto
termination
  by (relation "measure (\<lambda>(scale, redactions, i, st). length redactions - i)") auto

declare mergeFrom.simps [simp del]

definition mergeRedactions :: "rat \<Rightarrow> redaction list \<Rightarrow> redaction list" where
  "mergeRedactions scale redactions =
     (if length redactions < 2 then redactions
      else fst (mergeFrom scale redactions 0 ([], {})))"

text \<open>The four numbers of a box.\<close>

definition box :: "redaction \<Rightarrow> int \<times> int \<times> int \<times> int" where
  "box r = (r_x r, r_y r, r_width r, r_height r)"

subsection \<open>Notions used to state what the merger guarantees\<close>

text \<open>\<open>covers m r\<close>: the box \<open>r\<close> lies inside the box \<open>m\<close>. \<open>tight rs m\<close>: each of the four
  edges of \<open>m\<close> is the edge of an input rectangle inside \<open>m\<close>, so \<open>m\<close> is the bounding box of
  the input rectangles it contains. \<open>conn rs k l\<close>: the rectangles \<open>k\<close> and \<open>l\<close> are joined
  by a chain of pairwise adjacent input rectangles.\<close>

definition covers :: "redaction \<Rightarrow> redaction \<Rightarrow> bool" where
  "covers m r \<longleftrightarrow>
     r_x m \<le> r_x r \<and> r_x r + r_width r \<le> r_x m + r_width m \<and>
     r_y m \<le> r_y r \<and> r_y r + r_height r \<le> r_y m + r_height m"

definition tight :: "redaction list \<Rightarrow> redaction \<Rightarrow> bool" where
  "tight rs m \<longleftrightarrow>
     (\<exists>k<length rs. covers m (rs ! k) \<and> r_x (rs ! k) = r_x m) \<and>
     (\<exists>k<length rs. covers m (rs ! k) \<and> r_x (rs ! k) + r_width (rs ! k) = r_x m + r_width m) \<and>
     (\<exists>k<length rs. covers m (rs ! k) \<and> r_y (rs ! k) = r_y m) \<and>
     (\<exists>k<length rs. covers m (rs ! k) \<and> r_y (rs ! k) + r_height (rs ! k) = r_y m + r_height m)"

definition adjRel :: "redaction list \<Rightarrow> (nat \<times> nat) set" where
  "adjRel rs = {(k, l). k < length rs \<and> l < length rs \<and> adjacent (rs ! k) (rs ! l)}"

definition conn :: "redaction list \<Rightarrow> nat \<Rightarrow> nat \<Rightarrow> bool" where
  "conn rs k l \<longleftrightarrow> (k, l) \<in> (adjRel rs)\<^sup>*"

text \<open>The same graph on the rectangles themselves: the component of a rectangle, the
  bounding box of a set of rectangles, and the set of the bounding boxes of all
  components. A set of rectangles is \<open>separated\<close> when the bounding boxes of two different
  components never pass the adjacency test.\<close>

definition adjOn :: "redaction set \<Rightarrow> (redaction \<times> redaction) set" where
  "adjOn S = {(a, b). a \<in> S \<and> b \<in> S \<and> adjacent a b}"

definition component :: "redaction set \<Rightarrow> redaction \<Rightarrow> redaction set" where
  "component S a = {b. (a, b) \<in> (adjOn S)\<^sup>*}"

definition hullLeft :: "redaction set \<Rightarrow> int" where
  "hullLeft T = Min (r_x ` T)"

definition hullRight :: "redaction set \<Rightarrow> int" where
  "hullRight T = Max ((\<lambda>r. r_x r + r_width r) ` T)"

definition hullTop :: "redaction set \<Rightarrow> int" where
  "hullTop T = Min (r_y ` T)"

definition hullBottom :: "redaction set \<Rightarrow> int" where
  "hullBottom T = Max ((\<lambda>r. r_y r + r_height r) ` T)"

definition hullBox :: "redaction set \<Rightarrow> int \<times> int \<times> int \<times> int" where
  "hullBox T = (hullLeft T, hullTop T, hullRight T - hullLeft T, hullBottom T - hullTop T)"

definition hullsAdjacent :: "redaction set \<Rightarrow> redaction set \<Rightarrow> bool" where
  "hullsAdjacent T U \<longleftrightarrow>
     hullLeft T - gap \<le> hullRight U \<and> hullRight T + gap \<ge> hullLeft U \<and>
     hullTop T - gap \<le> hullBottom U \<and> hullBottom T + gap \<ge> hullTop U"

definition componentBoxes :: "redaction set \<Rightarrow> (int \<times> int \<times> int \<times> int) set" where
  "componentBoxes S = (\<lambda>a. hullBox (component S a)) ` S"

definition separated :: "redaction set \<Rightarrow> bool" where
  "separated S \<longleftrightarrow>
     (\<forall>a\<in>S. \<forall>b\<in>S. b \<notin> component S a \<longrightarrow> \<not> hullsAdjacent (component S a) (component S b))"

text \<open>Adjacency as the specification words it: each of the two boxes is grown by the gap,
  and the grown boxes meet.\<close>

definition spec_adjacent :: "redaction \<Rightarrow> redaction \<Rightarrow> bool" where
  "spec_adjacent a b \<longleftrightarrow>
     r_x a - gap \<le> r_x b + r_width b + gap \<and> r_x b - gap \<le> r_x a + r_width a + gap \<and>
     r_y a - gap \<le> r_y b + r_height b + gap \<and> r_y b - gap \<le> r_y a + r_height a + gap"

text \<open>Candidate boxes on page 1 at the default scale 1.5: a tall box, a wide box just
  below it, a small box in the corner the two leave free, a box far to the right, and a box
  15 pixels below the tall one.\<close>

definition boxA :: redaction where
  "boxA = newRedaction (3/2) 1 0 5 20 100"

definition boxB :: redaction where
  "boxB = newRedaction (3/2) 1 0 110 100 20"

definition boxC :: redaction where
  "boxC = newRedaction (3/2) 1 60 0 20 20"

definition boxD :: redaction where
  "boxD = newRedaction (3/2) 1 300 0 20 20"

definition boxE :: redaction where
  "boxE = newRedaction (3/2) 1 0 120 20 20"

section \<open>findTextInArea\<close>

text \<open>\<open>String.prototype.trim\<close>: white space and line terminators are stripped from both
  ends. A \<^typ>\<open>char\<close> stands for one code unit below 256, so the white space is TAB, LF,
  VT, FF, CR, space and the no-break space.\<close>

definition isWhiteSpace :: "char \<Rightarrow> bool" where
  "isWhiteSpace c \<longleftrightarrow> c \<in> set [CHR 0x09, CHR 0x0A, CHR 0x0B, CHR 0x0C, CHR 0x0D, CHR 0x20, CHR 0xA0]"

definition trim :: "string \<Rightarrow> string" where
  "trim s = rev (dropWhile isWhiteSpace (rev (dropWhile isWhiteSpace s)))"

text \<open>\<open>a || b\<close> on an optional number: \<open>b\<close> when \<open>a\<close> is absent or zero.\<close>

definition orElse :: "rat option \<Rightarrow> rat \<Rightarrow> rat" where
  "orElse a b = (case a of None \<Rightarrow> b | Some v \<Rightarrow> if v = 0 then b else v)"

text \<open>The locals every text routine computes first. \<open>vt\<close> is \<open>viewport.transform\<close>.\<close>

definition fontSizeOf :: "textItem \<Rightarrow> rat" where
  "fontSizeOf item = orElse (Some \<bar>tr0 (t_transform item)\<bar>) 12"

definition itemWidthOf :: "textItem \<Rightarrow> rat" where
  "itemWidthOf item = orElse (t_width item) (of_nat (length (str item)) * fontSizeOf item * (6/10))"

definition canvasXOf :: "transform \<Rightarrow> textItem \<Rightarrow> rat" where
  "canvasXOf vt item = tr0 vt * tr4 (t_transform item) + tr4 vt"

definition canvasYOf :: "transform \<Rightarrow> textItem \<Rightarrow> rat" where
  "canvasYOf vt item = tr3 vt * tr5 (t_transform item) + tr5 vt"

text \<open>The two \<open>continue\<close> tests on the text: \<open>!item.str || item.str.trim() === ''\<close> and
  \<open>item.str.trim() === '1111'\<close>.\<close>

definition skippedText :: "textItem \<Rightarrow> bool" where
  "skippedText item \<longleftrightarrow> str item = [] \<or> trim (str item) = [] \<or> trim (str item) = ''1111''"

text \<open>The condition of the \<open>if\<close> in \<open>findTextInArea\<close>. Where the JavaScript divides by a zero
  \<open>scaledWidth\<close> the dividend \<open>overlapWidth\<close> is zero as well, the quotient is NaN and the
  comparison false; HOL's \<open>0 / 0 = 0\<close> gives the same answer.\<close>

definition textInside :: "rat \<Rightarrow> transform \<Rightarrow> redaction \<Rightarrow> textItem \<Rightarrow> bool" where
  "textInside scale vt redaction item =
     (let fontSize = fontSizeOf item;
          itemWidth = itemWidthOf item;
          canvasX = canvasXOf vt item;
          canvasY = canvasYOf vt item;
          scaledWidth = itemWidth * scale;
          scaledHeight = fontSize * scale;
          textLeft = canvasX;
          textRight = canvasX + scaledWidth;
          textTop = canvasY - scaledHeight;
          textBottom = canvasY;
          redactLeft = of_int (r_x redaction);
          redactRight = of_int (r_x redaction + r_width redaction);
          redactTop = of_int (r_y redaction);
          redactBottom = of_int (r_y redaction + r_height redaction);
          overlapLeft = max textLeft redactLeft;
          overlapRight = min textRight redactRight;
          overlapWidth = max 0 (overlapRight - overlapLeft);
          overlapTop = max textTop redactTop;
          overlapBottom = min textBottom redactBottom;
          overlapHeight = max 0 (overlapBottom - overlapTop);
          textCenterY = (textTop + textBottom) / 2;
          horizontalOverlapRatio = overlapWidth / scaledWidth;
          verticalInside = (textCenterY \<ge> redactTop \<and> textCenterY \<le> redactBottom)
      in horizontalOverlapRatio \<ge> 1/2 \<and> verticalInside \<and> overlapHeight > 0)"

text \<open>The object pushed on \<open>foundText\<close>.\<close>

definition foundEntry :: "rat \<Rightarrow> transform \<Rightarrow> nat \<Rightarrow> textItem \<Rightarrow> foundItem" where
  "foundEntry scale vt i item =
     \<lparr> h_text = str item, h_x = canvasXOf vt item, h_y = canvasYOf vt item,
       h_width = itemWidthOf item * scale, h_height = fontSizeOf item * scale,
       h_fontSize = fontSizeOf item * scale, h_transform = t_transform item,
       h_fontName = t_fontName item, h_index = i \<rparr>"

text \<open>The \<open>for i\<close> loop. The state is \<open>(foundText, assignedTextIndices)\<close>.\<close>

function findLoop ::
  "rat \<Rightarrow> textItem list \<Rightarrow> redaction \<Rightarrow> transform \<Rightarrow> nat \<Rightarrow> foundItem list \<times> nat set
     \<Rightarrow> foundItem list \<times> nat set"
where
  "findLoop scale textItems redaction vt i (foundText, assigned) =
     (if i < length textItems then
        (if i \<in> assigned then findLoop scale textItems redaction vt (i + 1) (foundText, assigned)
         else if skippedText (textItems ! i)
           then findLoop scale textItems redaction vt (i + 1) (foundText, assigned)
         else if textInside scale vt redaction (textItems ! i)
           then findLoop scale textItems redaction vt (i + 1)
                  (foundText @ [foundEntry scale vt i (textItems ! i)], insert i assigned)
           else findLoop scale textItems redaction vt (i + 1) (foundText, assigned))
      else (foundText, assigned))"
  by pat_completeness auto
termination
  by (relation "measure (\<lambda>(scale, textItems, redaction, vt, i, st). length textItems - i)") auto

declare findLoop.simps [simp del]

text \<open>The comparator handed to \<open>sort\<close>.\<close>

definition byPosition :: "foundItem \<Rightarrow> foundItem \<Rightarrow> rat" where
  "byPosition a b = (if \<bar>h_y a - h_y b\<bar> < 5 then h_x a - h_x b else h_y a - h_y b)"

text \<open>\<open>Array.prototype.sort\<close> belongs to the JavaScript engine. It is modelled as the stable
  insertion sort: \<open>a\<close> stays before \<open>b\<close> unless the comparator returns a positive number. For a
  consistent comparator every conforming engine returns this list. For an inconsistent one
  the language leaves the order to the engine, and an engine's merge sort need not return
  the arrangement of the insertion sort, so there \<open>sortBy\<close> stands for the engine only up
  to the order of the result: it returns a permutation of its input, as every engine does.
  \<open>byPosition\<close> is inconsistent on some inputs, since its 5-pixel band is not transitive; on
  those the statements below rely on \<open>sortBy\<close> for the elements of the list and never for
  their order.\<close>

fun insertBy :: "('a \<Rightarrow> 'a \<Rightarrow> rat) \<Rightarrow> 'a \<Rightarrow> 'a list \<Rightarrow> 'a list" where
  "insertBy cmp a [] = [a]"
| "insertBy cmp a (b # bs) = (if cmp a b > 0 then b # insertBy cmp a bs else a # b # bs)"

fun sortBy :: "('a \<Rightarrow> 'a \<Rightarrow> rat) \<Rightarrow> 'a list \<Rightarrow> 'a list" where
  "sortBy cmp [] = []"
| "sortBy cmp (a # as) = insertBy cmp a (sortBy cmp as)"

definition findTextInArea ::
  "rat \<Rightarrow> textItem list \<Rightarrow> redaction \<Rightarrow> transform \<Rightarrow> nat set \<Rightarrow> foundItem list \<times> nat set"
where
  "findTextInArea scale textItems redaction vt assigned =
     (case findLoop scale textItems redaction vt 0 ([], assigned) of
        (foundText, assigned') \<Rightarrow> (sortBy byPosition foundText, assigned'))"

text \<open>The loop of \<open>processPage\<close> that fills in \<open>hiddenText\<close>, region after region, with the
  page-wide set \<open>assignedTextIndices\<close> threaded through.\<close>

fun associate ::
  "rat \<Rightarrow> textItem list \<Rightarrow> transform \<Rightarrow> redaction list \<Rightarrow> nat set \<Rightarrow> redaction list \<times> nat set"
where
  "associate scale textItems vt [] assigned = ([], assigned)"
| "associate scale textItems vt (redaction # rest) assigned =
     (case findTextInArea scale textItems redaction vt assigned of
        (foundText, assigned') \<Rightarrow>
          (case associate scale textItems vt rest assigned' of
             (rest', assigned'') \<Rightarrow> (redaction\<lparr>hiddenText := foundText\<rparr> # rest', assigned'')))"

section \<open>The reveal and export paths\<close>

text \<open>\<open>revealRedactedText\<close> draws, for every redaction, the entries of its \<open>hiddenText\<close>. A
  drawing is recorded as the font size set and the arguments of \<open>fillText\<close>.\<close>

record drawCall =
  d_fontSize :: rat
  d_text :: string
  d_x :: rat
  d_y :: rat

definition drawFound :: "foundItem \<Rightarrow> drawCall" where
  "drawFound textItem =
     \<lparr> d_fontSize = orElse (Some (h_fontSize textItem)) 12, d_text = h_text textItem,
       d_x = h_x textItem, d_y = h_y textItem \<rparr>"

definition revealRedactedText :: "redaction list \<Rightarrow> drawCall list" where
  "revealRedactedText redactions = concat (map (\<lambda>redaction. map drawFound (hiddenText redaction)) redactions)"

text \<open>The test inside the \<open>for (const redaction of redactions)\<close> loop of
  \<open>renderTextForExport\<close>; \<open>renderTextLayerForRedactions\<close> of the application repeats it
  word for word.\<close>

definition exportOverlap :: "rat \<Rightarrow> transform \<Rightarrow> redaction \<Rightarrow> textItem \<Rightarrow> bool" where
  "exportOverlap scale vt redaction item =
     (let fontSize = fontSizeOf item;
          canvasX = canvasXOf vt item;
          canvasY = canvasYOf vt item;
          scaledFontSize = fontSize * scale;
          textTop = canvasY - scaledFontSize;
          textBottom = canvasY;
          textLeft = canvasX;
          textWidth = itemWidthOf item * scale;
          textRight = textLeft + textWidth;
          overlapLeft = max textLeft (of_int (r_x redaction));
          overlapRight = min textRight (of_int (r_x redaction + r_width redaction));
          horizontalOverlap = max 0 (overlapRight - overlapLeft);
          textCenterY = (textTop + textBottom) / 2;
          verticalInside = (textCenterY \<ge> of_int (r_y redaction) \<and>
                            textCenterY \<le> of_int (r_y redaction + r_height redaction))
      in horizontalOverlap > textWidth * (3/10) \<and> verticalInside)"

fun isInRedaction :: "rat \<Rightarrow> transform \<Rightarrow> redaction list \<Rightarrow> textItem \<Rightarrow> bool" where
  "isInRedaction scale vt [] item = False"
| "isInRedaction scale vt (redaction # rest) item =
     (if exportOverlap scale vt redaction item then True
      else isInRedaction scale vt rest item)"

text \<open>\<open>renderTextForExport\<close>: the \<open>fillText\<close> calls it makes, in order.\<close>

fun renderTextForExport :: "rat \<Rightarrow> transform \<Rightarrow> redaction list \<Rightarrow> textItem list \<Rightarrow> drawCall list" where
  "renderTextForExport scale vt redactions [] = []"
| "renderTextForExport scale vt redactions (item # items) =
     (if skippedText item then renderTextForExport scale vt redactions items
      else if \<not> isInRedaction scale vt redactions item
        then renderTextForExport scale vt redactions items
      else \<lparr> d_fontSize = fontSizeOf item * scale, d_text = str item,
             d_x = canvasXOf vt item, d_y = canvasYOf vt item \<rparr>
           # renderTextForExport scale vt redactions items)"

text \<open>\<open>renderTextLayerForRedactions\<close> of the application: the spans it appends, in order.
  \<open>scaleX\<close> and \<open>scaleY\<close> are the ratios of the displayed size to the page size.\<close>

record span =
  s_text :: string
  s_left :: rat
  s_top :: rat
  s_fontSize :: rat

fun renderTextLayerForRedactions ::
  "rat \<Rightarrow> transform \<Rightarrow> rat \<Rightarrow> rat \<Rightarrow> redaction list \<Rightarrow> textItem list \<Rightarrow> span list" where
  "renderTextLayerForRedactions scale vt scaleX scaleY redactions [] = []"
| "renderTextLayerForRedactions scale vt scaleX scaleY redactions (item # items) =
     (if skippedText item then renderTextLayerForRedactions scale vt scaleX scaleY redactions items
      else if \<not> isInRedaction scale vt redactions item
        then renderTextLayerForRedactions scale vt scaleX scaleY redactions items
      else \<lparr> s_text = str item, s_left = canvasXOf vt item * scaleX,
             s_top = (canvasYOf vt item - fontSizeOf item * scale) * scaleY,
             s_fontSize = fontSizeOf item * scale * scaleY \<rparr>
           # renderTextLayerForRedactions scale vt scaleX scaleY redactions items)"

text \<open>A page 200 points high rendered at the default scale 1.5: its viewport transform,
  one redaction, the word it hides and a placeholder at the same place.\<close>

definition pageVt :: transform where
  "pageVt = (3/2, 0, 0, -3/2, 0, 300)"

definition regionR :: redaction where
  "regionR = newRedaction (3/2) 1 50 50 100 20"

definition fragSecret :: textItem where
  "fragSecret = \<lparr> str = ''Secret'', t_width = Some 40, t_transform = (8, 0, 0, 8, 40, 156),
                  t_fontName = ''f1'' \<rparr>"

definition fragSentinel :: textItem where
  "fragSentinel = \<lparr> str = '' 1111 '', t_width = None, t_transform = (8, 0, 0, 8, 40, 156),
                    t_fontName = ''f1'' \<rparr>"

section \<open>Notions used to state the reading order and the thresholds\<close>

text \<open>The order the specification asks of a \<open>hiddenText\<close> list: of two entries, the earlier
  one has the smaller x when their vertical origins differ by less than 5 pixels, and the
  smaller y otherwise.\<close>

definition inReadingOrder :: "foundItem \<Rightarrow> foundItem \<Rightarrow> bool" where
  "inReadingOrder a b \<longleftrightarrow> (if \<bar>h_y a - h_y b\<bar> < 5 then h_x a \<le> h_x b else h_y a \<le> h_y b)"




text \<open>Three fragments on lines 4.5 pixels apart, each further left than the one above, under
  one wide redaction; and a word of which 40 percent lies under \<open>regionR\<close>.\<close>

definition regionWide :: redaction where
  "regionWide = newRedaction (3/2) 1 0 40 200 40"

definition lineA :: textItem where
  "lineA = \<lparr> str = ''a'', t_width = Some 20, t_transform = (8, 0, 0, 8, 20, 160), t_fontName = ''f1'' \<rparr>"

definition lineB :: textItem where
  "lineB = \<lparr> str = ''b'', t_width = Some 20, t_transform = (8, 0, 0, 8, 10, 157), t_fontName = ''f1'' \<rparr>"

definition lineC :: textItem where
  "lineC = \<lparr> str = ''c'', t_width = Some 20, t_transform = (8, 0, 0, 8, 0, 154), t_fontName = ''f1'' \<rparr>"


section \<open>detectRedactions\<close>

text \<open>An \<open>ImageData\<close>: the samples (\<open>Uint8ClampedArray\<close>, four per pixel) and the two
  dimensions.\<close>

record imageData =
  i_data :: "nat list"
  i_width :: nat
  i_height :: nat

definition blackThreshold :: nat where
  "blackThreshold = 30"

text \<open>\<open>data[idx] < blackThreshold\<close>: an index past the end of the array reads \<open>undefined\<close>,
  and the comparison is false.\<close>

definition belowThreshold :: "nat list \<Rightarrow> nat \<Rightarrow> bool" where
  "belowThreshold samples idx \<longleftrightarrow> idx < length samples \<and> samples ! idx < blackThreshold"

definition isBlack :: "imageData \<Rightarrow> int \<Rightarrow> int \<Rightarrow> bool" where
  "isBlack img x y =
     (if x < 0 \<or> x \<ge> int (i_width img) \<or> y < 0 \<or> y \<ge> int (i_height img) then False
      else (let idx = nat ((y * int (i_width img) + x) * 4)
            in belowThreshold (i_data img) idx \<and>
               belowThreshold (i_data img) (idx + 1) \<and>
               belowThreshold (i_data img) (idx + 2)))"

text \<open>\<open>while (minX > 0 && isBlack(minX - 1, y)) minX--\<close>\<close>

function expandLeft :: "imageData \<Rightarrow> int \<Rightarrow> int \<Rightarrow> int" where
  "expandLeft img y minX =
     (if minX > 0 \<and> isBlack img (minX - 1) y then expandLeft img y (minX - 1) else minX)"
  by pat_completeness auto
termination
  by (relation "measure (\<lambda>(img, y, minX). nat minX)") auto

declare expandLeft.simps [simp del]

text \<open>\<open>while (maxX < width - 1 && isBlack(maxX + 1, y)) maxX++\<close>\<close>

function expandRight :: "imageData \<Rightarrow> int \<Rightarrow> int \<Rightarrow> int" where
  "expandRight img y maxX =
     (if maxX < int (i_width img) - 1 \<and> isBlack img (maxX + 1) y
      then expandRight img y (maxX + 1) else maxX)"
  by pat_completeness auto
termination
  by (relation "measure (\<lambda>(img, y, maxX). nat (int (i_width img) - maxX))") auto

declare expandRight.simps [simp del]

text \<open>The inner \<open>for (tx = minX; tx <= maxX; tx += 3)\<close> of the vertical expansion: whether
  every sampled pixel of the row, from \<open>tx\<close> on, is black.\<close>

function rowAllBlack :: "imageData \<Rightarrow> int \<Rightarrow> int \<Rightarrow> int \<Rightarrow> bool" where
  "rowAllBlack img maxX row tx =
     (if tx \<le> maxX then (if \<not> isBlack img tx row then False else rowAllBlack img maxX row (tx + 3))
      else True)"
  by pat_completeness auto
termination
  by (relation "measure (\<lambda>(img, maxX, row, tx). nat (maxX + 1 - tx))") auto

declare rowAllBlack.simps [simp del]

text \<open>\<open>while (allBlackAbove && minY > 0)\<close>: the row above is taken when all its samples are
  black, otherwise \<open>minY\<close> is restored and the loop ends.\<close>

function expandUp :: "imageData \<Rightarrow> int \<Rightarrow> int \<Rightarrow> int \<Rightarrow> int" where
  "expandUp img minX maxX minY =
     (if minY > 0 then
        (if rowAllBlack img maxX (minY - 1) minX then expandUp img minX maxX (minY - 1) else minY)
      else minY)"
  by pat_completeness auto
termination
  by (relation "measure (\<lambda>(img, minX, maxX, minY). nat minY)") auto

declare expandUp.simps [simp del]

text \<open>\<open>while (allBlackBelow && maxY < height - 1)\<close>\<close>

function expandDown :: "imageData \<Rightarrow> int \<Rightarrow> int \<Rightarrow> int \<Rightarrow> int" where
  "expandDown img minX maxX maxY =
     (if maxY < int (i_height img) - 1 then
        (if rowAllBlack img maxX (maxY + 1) minX then expandDown img minX maxX (maxY + 1) else maxY)
      else maxY)"
  by pat_completeness auto
termination
  by (relation "measure (\<lambda>(img, minX, maxX, maxY). nat (int (i_height img) - maxY))") auto

declare expandDown.simps [simp del]

text \<open>Marking the box as visited. The key \<open>`${x},${y}`\<close> of a coordinate is modelled by the
  pair itself.\<close>

function markRow :: "int \<Rightarrow> int \<Rightarrow> int \<Rightarrow> (int \<times> int) set \<Rightarrow> (int \<times> int) set" where
  "markRow maxX vy vx visited =
     (if vx \<le> maxX then markRow maxX vy (vx + 5) (insert (vx, vy) visited) else visited)"
  by pat_completeness auto
termination
  by (relation "measure (\<lambda>(maxX, vy, vx, visited). nat (maxX + 1 - vx))") auto

declare markRow.simps [simp del]

function markRows :: "int \<Rightarrow> int \<Rightarrow> int \<Rightarrow> int \<Rightarrow> (int \<times> int) set \<Rightarrow> (int \<times> int) set" where
  "markRows minX maxX maxY vy visited =
     (if vy \<le> maxY then markRows minX maxX maxY (vy + 5) (markRow maxX vy minX visited)
      else visited)"
  by pat_completeness auto
termination
  by (relation "measure (\<lambda>(minX, maxX, maxY, vy, visited). nat (maxY + 1 - vy))") auto

declare markRows.simps [simp del]

text \<open>The density loops. The state is \<open>(blackPixelCount, totalPixels)\<close>.\<close>

function countRow :: "imageData \<Rightarrow> int \<Rightarrow> int \<Rightarrow> int \<Rightarrow> nat \<times> nat \<Rightarrow> nat \<times> nat" where
  "countRow img maxX vy vx (blackPixelCount, totalPixels) =
     (if vx \<le> maxX then
        countRow img maxX vy (vx + 2)
          (if isBlack img vx vy then blackPixelCount + 1 else blackPixelCount, totalPixels + 1)
      else (blackPixelCount, totalPixels))"
  by pat_completeness auto
termination
  by (relation "measure (\<lambda>(img, maxX, vy, vx, c). nat (maxX + 1 - vx))") auto

declare countRow.simps [simp del]

function countRows :: "imageData \<Rightarrow> int \<Rightarrow> int \<Rightarrow> int \<Rightarrow> int \<Rightarrow> nat \<times> nat \<Rightarrow> nat \<times> nat" where
  "countRows img minX maxX maxY vy counts =
     (if vy \<le> maxY then countRows img minX maxX maxY (vy + 2) (countRow img maxX vy minX counts)
      else counts)"
  by pat_completeness auto
termination
  by (relation "measure (\<lambda>(img, minX, maxX, maxY, vy, c). nat (maxY + 1 - vy))") auto

declare countRows.simps [simp del]

text \<open>The body of the two scanning loops at the seed \<open>(x, y)\<close>. The state is
  \<open>(redactions, visited)\<close>. The quotient \<open>blackPixelCount / totalPixels\<close> is compared with
  0.85 in exact arithmetic.\<close>

definition minRedactionSize :: int where
  "minRedactionSize = 20"

definition seedStep ::
  "rat \<Rightarrow> nat \<Rightarrow> imageData \<Rightarrow> int \<Rightarrow> int \<Rightarrow> redaction list \<times> (int \<times> int) set
     \<Rightarrow> redaction list \<times> (int \<times> int) set"
where
  "seedStep scale pageNum img x y st =
     (case st of (redactions, visited) \<Rightarrow>
        if (x, y) \<in> visited then (redactions, visited)
        else if isBlack img x y then
          (let minX = expandLeft img y x;
               maxX = expandRight img y x;
               minY = expandUp img minX maxX y;
               maxY = expandDown img minX maxX y;
               visited' = markRows minX maxX maxY minY visited;
               rectWidth = maxX - minX;
               rectHeight = maxY - minY
           in if rectWidth \<ge> minRedactionSize \<and> rectHeight \<ge> 8 then
                (case countRows img minX maxX maxY minY (0, 0) of
                   (blackPixelCount, totalPixels) \<Rightarrow>
                     if (of_nat blackPixelCount :: rat) / of_nat totalPixels > 85/100
                     then (redactions @ [newRedaction scale pageNum minX minY rectWidth rectHeight],
                           visited')
                     else (redactions, visited'))
              else (redactions, visited'))
        else (redactions, visited))"

text \<open>\<open>for (let x = 0; x < width; x += 5)\<close> and \<open>for (let y = 0; y < height; y += 5)\<close>\<close>

function scanRow ::
  "rat \<Rightarrow> nat \<Rightarrow> imageData \<Rightarrow> int \<Rightarrow> int \<Rightarrow> redaction list \<times> (int \<times> int) set
     \<Rightarrow> redaction list \<times> (int \<times> int) set"
where
  "scanRow scale pageNum img y x st =
     (if x < int (i_width img)
      then scanRow scale pageNum img y (x + 5) (seedStep scale pageNum img x y st)
      else st)"
  by pat_completeness auto
termination
  by (relation "measure (\<lambda>(scale, pageNum, img, y, x, st). nat (int (i_width img) - x))") auto

declare scanRow.simps [simp del]

function scanRows ::
  "rat \<Rightarrow> nat \<Rightarrow> imageData \<Rightarrow> int \<Rightarrow> redaction list \<times> (int \<times> int) set
     \<Rightarrow> redaction list \<times> (int \<times> int) set"
where
  "scanRows scale pageNum img y st =
     (if y < int (i_height img)
      then scanRows scale pageNum img (y + 5) (scanRow scale pageNum img y 0 st)
      else st)"
  by pat_completeness auto
termination
  by (relation "measure (\<lambda>(scale, pageNum, img, y, st). nat (int (i_height img) - y))") auto

declare scanRows.simps [simp del]

text \<open>The candidate list before merging, and \<open>detectRedactions\<close> itself.\<close>

definition scan :: "rat \<Rightarrow> nat \<Rightarrow> imageData \<Rightarrow> redaction list" where
  "scan scale pageNum img = fst (scanRows scale pageNum img 0 ([], {}))"

definition detectRedactions :: "rat \<Rightarrow> nat \<Rightarrow> imageData \<Rightarrow> redaction list" where
  "detectRedactions scale pageNum img = mergeRedactions scale (scan scale pageNum img)"

subsection \<open>Notions used to state what the scan guarantees\<close>

text \<open>The coordinates \<open>lo, lo + step, ...\<close> up to \<open>hi\<close>, and the density of black samples
  of the box \<open>[minX, maxX] \<times> [minY, maxY]\<close> sampled at a stride of 2 in both axes.\<close>

definition strided :: "int \<Rightarrow> int \<Rightarrow> int \<Rightarrow> int list" where
  "strided lo hi step = map (\<lambda>k. lo + int k * step) [0..<nat ((hi - lo) div step + 1)]"

definition boxSamples :: "int \<Rightarrow> int \<Rightarrow> int \<Rightarrow> int \<Rightarrow> (int \<times> int) list" where
  "boxSamples minX maxX minY maxY =
     concat (map (\<lambda>vy. map (\<lambda>vx. (vx, vy)) (strided minX maxX 2)) (strided minY maxY 2))"

definition sampledDensity :: "imageData \<Rightarrow> int \<Rightarrow> int \<Rightarrow> int \<Rightarrow> int \<Rightarrow> rat" where
  "sampledDensity img minX maxX minY maxY =
     of_nat (length (filter (\<lambda>(vx, vy). isBlack img vx vy) (boxSamples minX maxX minY maxY)))
       / of_nat (length (boxSamples minX maxX minY maxY))"

text \<open>The buffer the specification calls invalid.\<close>

definition invalidBuffer :: "imageData \<Rightarrow> bool" where
  "invalidBuffer img \<longleftrightarrow>
     i_width img = 0 \<or> i_height img = 0 \<or> length (i_data img) \<noteq> i_width img * i_height img * 4"

text \<open>A buffer of one colour, and the same with samples left over at the end.\<close>

definition solidImage :: "nat \<Rightarrow> nat \<Rightarrow> nat list \<Rightarrow> imageData" where
  "solidImage w h rgba = \<lparr> i_data = concat (replicate (w * h) rgba), i_width = w, i_height = h \<rparr>"

definition paddedImage :: "nat \<Rightarrow> nat \<Rightarrow> nat list \<Rightarrow> imageData" where
  "paddedImage w h rgba =
     \<lparr> i_data = concat (replicate (w * h) rgba) @ [255, 255, 255, 255], i_width = w, i_height = h \<rparr>"

text \<open>A completely black buffer: every pixel inside the buffer is black. A buffer with no
  black pixel.\<close>

definition allBlack :: "imageData \<Rightarrow> bool" where
  "allBlack img \<longleftrightarrow>
     (\<forall>x y. 0 \<le> x \<and> x < int (i_width img) \<and> 0 \<le> y \<and> y < int (i_height img) \<longrightarrow> isBlack img x y)"

definition noBlack :: "imageData \<Rightarrow> bool" where
  "noBlack img \<longleftrightarrow> (\<forall>x y. \<not> isBlack img x y)"

section \<open>Invariants and auxiliary notions of the proofs\<close>

text \<open>The invariant of the outer loop.\<close>

definition mergeInv :: "redaction list \<Rightarrow> redaction list \<Rightarrow> nat set \<Rightarrow> bool" where
  "mergeInv rs merged used \<longleftrightarrow>
     used \<subseteq> {..<length rs} \<and>
     length merged \<le> card used \<and>
     (\<forall>k\<in>used. \<exists>m\<in>set merged. \<forall>l. conn rs k l \<longrightarrow> covers m (rs ! l)) \<and>
     (\<forall>m\<in>set merged. tight rs m \<and> (\<forall>l<length rs. l \<notin> used \<longrightarrow> \<not> adjacent m (rs ! l)))"

text \<open>A box lies inside the bounding box of a set of rectangles; the invariant of the
  outer loop in the separated case.\<close>

definition insideHull :: "redaction set \<Rightarrow> redaction \<Rightarrow> bool" where
  "insideHull T c \<longleftrightarrow>
     hullLeft T \<le> r_x c \<and> r_x c + r_width c \<le> hullRight T \<and> hullTop T \<le> r_y c \<and> r_y c + r_height c \<le> hullBottom T"

definition sepInv :: "redaction list \<Rightarrow> redaction list \<Rightarrow> nat set \<Rightarrow> bool" where
  "sepInv rs merged used \<longleftrightarrow>
     (\<forall>k\<in>used. \<exists>m\<in>set merged. box m = hullBox (component (set rs) (rs ! k))) \<and>
     (\<forall>m\<in>set merged. box m \<in> componentBoxes (set rs))"

text \<open>The indices the loop picks when started at \<open>j\<close> with the set \<open>assigned\<close>.\<close>

definition picked :: "rat \<Rightarrow> textItem list \<Rightarrow> redaction \<Rightarrow> transform \<Rightarrow> nat set \<Rightarrow> nat \<Rightarrow> nat list" where
  "picked s items r vt assigned j =
     filter (\<lambda>i. i \<notin> assigned \<and> \<not> skippedText (items ! i) \<and> textInside s vt r (items ! i))
       [j..<length items]"

text \<open>What holds of every rectangle the scan has emitted.\<close>

definition emitted :: "imageData \<Rightarrow> redaction \<Rightarrow> bool" where
  "emitted img r \<longleftrightarrow>
     r_width r \<ge> 20 \<and> r_height r \<ge> 8 \<and>
     sampledDensity img (r_x r) (r_x r + r_width r) (r_y r) (r_y r + r_height r) > 85/100"

section \<open>Properties of mergeRedactions\<close>

lemma adjacent_sym: "adjacent a b \<longleftrightarrow> adjacent b a"
  by (auto simp: adjacent_def)

lemma adjacent_mono: "covers m a \<Longrightarrow> adjacent a b \<Longrightarrow> adjacent m b"
  by (auto simp: adjacent_def covers_def gap_def)

lemma covers_refl: "covers r r"
  by (simp add: covers_def)

lemma covers_trans: "covers a b \<Longrightarrow> covers b c \<Longrightarrow> covers a c"
  by (auto simp: covers_def)

lemma covers_absorb: "covers (absorb s c r) c" "covers (absorb s c r) r"
  by (auto simp: covers_def absorb_def Let_def)

lemma tight_absorb:
  assumes "tight rs c" "j < length rs"
  shows "tight rs (absorb s c (rs ! j))"
proof -
  let ?m = "absorb s c (rs ! j)"
  have cj: "covers ?m (rs ! j)" and cc: "covers ?m c"
    by (rule covers_absorb)+
  from assms(1) obtain k1 k2 k3 k4 where
    k1: "k1 < length rs" "covers c (rs ! k1)" "r_x (rs ! k1) = r_x c" and
    k2: "k2 < length rs" "covers c (rs ! k2)" "r_x (rs ! k2) + r_width (rs ! k2) = r_x c + r_width c" and
    k3: "k3 < length rs" "covers c (rs ! k3)" "r_y (rs ! k3) = r_y c" and
    k4: "k4 < length rs" "covers c (rs ! k4)" "r_y (rs ! k4) + r_height (rs ! k4) = r_y c + r_height c"
    unfolding tight_def by blast
  have c1: "covers ?m (rs ! k1)" and c2: "covers ?m (rs ! k2)"
    and c3: "covers ?m (rs ! k3)" and c4: "covers ?m (rs ! k4)"
    using cc k1(2) k2(2) k3(2) k4(2) covers_trans by blast+
  have x: "r_x ?m = min (r_x c) (r_x (rs ! j))"
    and y: "r_y ?m = min (r_y c) (r_y (rs ! j))"
    and xw: "r_x ?m + r_width ?m = max (r_x c + r_width c) (r_x (rs ! j) + r_width (rs ! j))"
    and yh: "r_y ?m + r_height ?m = max (r_y c + r_height c) (r_y (rs ! j) + r_height (rs ! j))"
    by (simp_all add: absorb_def Let_def)
  have "\<exists>k<length rs. covers ?m (rs ! k) \<and> r_x (rs ! k) = r_x ?m"
  proof (cases "r_x c \<le> r_x (rs ! j)")
    case True
    with x k1 c1 show ?thesis by (intro exI[of _ k1]) simp
  next
    case False
    with x cj assms(2) show ?thesis by (intro exI[of _ j]) simp
  qed
  moreover have "\<exists>k<length rs. covers ?m (rs ! k) \<and> r_x (rs ! k) + r_width (rs ! k) = r_x ?m + r_width ?m"
  proof (cases "r_x (rs ! j) + r_width (rs ! j) \<le> r_x c + r_width c")
    case True
    with xw k2 c2 show ?thesis by (intro exI[of _ k2]) simp
  next
    case False
    with xw cj assms(2) show ?thesis by (intro exI[of _ j]) simp
  qed
  moreover have "\<exists>k<length rs. covers ?m (rs ! k) \<and> r_y (rs ! k) = r_y ?m"
  proof (cases "r_y c \<le> r_y (rs ! j)")
    case True
    with y k3 c3 show ?thesis by (intro exI[of _ k3]) simp
  next
    case False
    with y cj assms(2) show ?thesis by (intro exI[of _ j]) simp
  qed
  moreover have "\<exists>k<length rs. covers ?m (rs ! k) \<and> r_y (rs ! k) + r_height (rs ! k) = r_y ?m + r_height ?m"
  proof (cases "r_y (rs ! j) + r_height (rs ! j) \<le> r_y c + r_height c")
    case True
    with yh k4 c4 show ?thesis by (intro exI[of _ k4]) simp
  next
    case False
    with yh cj assms(2) show ?thesis by (intro exI[of _ j]) simp
  qed
  ultimately show ?thesis
    unfolding tight_def by blast
qed

text \<open>What one pass establishes.\<close>

lemma mergePass_covers:
  "mergePass s rs j (c, u, d) = (c', u', d') \<Longrightarrow>
     covers c' c \<and> (\<forall>k\<in>u' - u. covers c' (rs ! k)) \<and> (tight rs c \<longrightarrow> tight rs c')"
proof (induction s rs j "(c, u, d)" arbitrary: c u d rule: mergePass.induct)
  case (1 s rs j c u d)
  show ?case
  proof (cases "j < length rs")
    case False
    with "1.prems" show ?thesis by (simp add: mergePass.simps covers_refl)
  next
    case lt: True
    show ?thesis
    proof (cases "j \<in> u")
      case True
      with lt "1.prems" have "mergePass s rs (j + 1) (c, u, d) = (c', u', d')"
        by (simp add: mergePass.simps)
      from "1.hyps"(1)[OF lt True this] show ?thesis .
    next
      case nu: False
      show ?thesis
      proof (cases "adjacent c (rs ! j)")
        case True
        let ?c = "absorb s c (rs ! j)"
        from True lt nu "1.prems"
        have e: "mergePass s rs (j + 1) (?c, insert j u, True) = (c', u', d')"
          by (simp add: mergePass.simps)
        from "1.hyps"(2)[OF lt nu True e]
        have ih: "covers c' ?c" "\<forall>k\<in>u' - insert j u. covers c' (rs ! k)"
          "tight rs ?c \<longrightarrow> tight rs c'"
          by auto
        have "covers c' c" "covers c' (rs ! j)"
          using ih(1) covers_absorb covers_trans by blast+
        moreover have "tight rs c \<longrightarrow> tight rs c'"
          using ih(3) tight_absorb lt by blast
        ultimately show ?thesis using ih(2) by auto
      next
        case False
        with lt nu "1.prems" have "mergePass s rs (j + 1) (c, u, d) = (c', u', d')"
          by (simp add: mergePass.simps)
        from "1.hyps"(3)[OF lt nu False this] show ?thesis .
      qed
    qed
  qed
qed

lemma mergePass_quiet:
  "mergePass s rs j (c, u, False) = (c', u', False) \<Longrightarrow>
     c' = c \<and> u' = u \<and> (\<forall>k. j \<le> k \<and> k < length rs \<and> k \<notin> u \<longrightarrow> \<not> adjacent c (rs ! k))"
proof (induction s rs j "(c, u, False)" arbitrary: c u rule: mergePass.induct)
  case (1 s rs j c u)
  show ?case
  proof (cases "j < length rs")
    case False
    with "1.prems" show ?thesis by (auto simp add: mergePass.simps)
  next
    case lt: True
    show ?thesis
    proof (cases "j \<in> u")
      case True
      with lt "1.prems" have "mergePass s rs (j + 1) (c, u, False) = (c', u', False)"
        by (simp add: mergePass.simps)
      from "1.hyps"(1)[OF lt True this] True show ?thesis
        by (metis Suc_eq_plus1 Suc_leI le_neq_implies_less)
    next
      case nu: False
      show ?thesis
      proof (cases "adjacent c (rs ! j)")
        case True
        with lt nu "1.prems"
        have "mergePass s rs (j + 1) (absorb s c (rs ! j), insert j u, True) = (c', u', False)"
          by (simp add: mergePass.simps)
        from mergePass_used[OF this] show ?thesis by simp
      next
        case False
        with lt nu "1.prems" have "mergePass s rs (j + 1) (c, u, False) = (c', u', False)"
          by (simp add: mergePass.simps)
        from "1.hyps"(3)[OF lt nu False this] False show ?thesis
          by (metis Suc_eq_plus1 Suc_leI le_neq_implies_less)
      qed
    qed
  qed
qed

text \<open>What the repeated passes establish when they stop.\<close>

lemma mergeLoop_result:
  "mergeLoop s rs (c, u) = (c', u') \<Longrightarrow>
     u \<subseteq> u' \<and> u' \<subseteq> u \<union> {..<length rs} \<and> covers c' c \<and>
     (\<forall>k\<in>u' - u. covers c' (rs ! k)) \<and>
     (\<forall>k<length rs. k \<notin> u' \<longrightarrow> \<not> adjacent c' (rs ! k)) \<and>
     (tight rs c \<longrightarrow> tight rs c')"
proof (induction s rs "(c, u)" arbitrary: c u rule: mergeLoop.induct)
  case (1 s rs c u)
  obtain c1 u1 d1 where p: "mergePass s rs 0 (c, u, False) = (c1, u1, d1)"
    by (metis prod_cases3)
  note used = mergePass_used[OF p] and cov = mergePass_covers[OF p]
  show ?case
  proof (cases d1)
    case False
    with p "1.prems" have e: "c' = c1" "u' = u1"
      by (simp_all add: mergeLoop.simps)
    from p False have "mergePass s rs 0 (c, u, False) = (c1, u1, False)" by simp
    from mergePass_quiet[OF this] e show ?thesis
      by (auto simp: covers_refl)
  next
    case True
    with p "1.prems" have "mergeLoop s rs (c1, u1) = (c', u')"
      by (simp add: mergeLoop.simps)
    from "1.hyps"[OF p[symmetric] refl True this]
    have ih: "u1 \<subseteq> u'" "u' \<subseteq> u1 \<union> {..<length rs}" "covers c' c1"
      "\<forall>k\<in>u' - u1. covers c' (rs ! k)"
      "\<forall>k<length rs. k \<notin> u' \<longrightarrow> \<not> adjacent c' (rs ! k)"
      "tight rs c1 \<longrightarrow> tight rs c'"
      by auto
    have "covers c' c"
      using ih(3) cov covers_trans by blast
    moreover have "\<forall>k\<in>u' - u. covers c' (rs ! k)"
      using ih(3,4) cov covers_trans by blast
    moreover have "u \<subseteq> u'" "u' \<subseteq> u \<union> {..<length rs}"
      using used ih(1,2) by auto
    ultimately show ?thesis
      using ih(5,6) cov by blast
  qed
qed

text \<open>A group that the loop has completed is closed under adjacency: whatever is joined
  to one of its members by a chain of adjacent rectangles belongs to it and lies inside its
  box.\<close>

lemma mergeLoop_group:
  assumes inv: "mergeInv rs merged used"
    and i: "i < length rs" "i \<notin> used"
    and loop: "mergeLoop s rs (rs ! i, insert i used) = (c', u')"
    and k: "k \<in> u'" "k \<notin> used" and c: "conn rs k l"
  shows "l \<in> u' \<and> l \<notin> used \<and> covers c' (rs ! l)"
proof -
  from mergeLoop_result[OF loop] have
    ci: "covers c' (rs ! i)" and
    cnew: "\<forall>k\<in>u' - insert i used. covers c' (rs ! k)" and
    quiet: "\<forall>k<length rs. k \<notin> u' \<longrightarrow> \<not> adjacent c' (rs ! k)"
    by auto
  from inv have
    k1: "\<forall>k\<in>used. \<exists>m\<in>set merged. \<forall>l. conn rs k l \<longrightarrow> covers m (rs ! l)" and
    k2: "\<forall>m\<in>set merged. tight rs m \<and> (\<forall>l<length rs. l \<notin> used \<longrightarrow> \<not> adjacent m (rs ! l))"
    unfolding mergeInv_def by auto
  have cg: "covers c' (rs ! k)" if "k \<in> u'" "k \<notin> used" for k
    using that ci cnew by (cases "k = i") auto
  have "l \<in> u' \<and> l \<notin> used"
    using c unfolding conn_def
  proof (induction rule: rtrancl_induct)
    case base
    from k show ?case by simp
  next
    case (step y z)
    then have y: "y \<in> u'" "y \<notin> used" by simp_all
    from step(2) have adj: "adjacent (rs ! y) (rs ! z)" and z: "z < length rs" and yl: "y < length rs"
      by (auto simp: adjRel_def)
    have "adjacent c' (rs ! z)"
      using cg[OF y] adj adjacent_mono by blast
    with quiet z have zu: "z \<in> u'" by blast
    have "z \<notin> used"
    proof
      assume "z \<in> used"
      with k1 obtain m where m: "m \<in> set merged" "\<forall>l. conn rs z l \<longrightarrow> covers m (rs ! l)"
        by blast
      have "conn rs z z" by (simp add: conn_def)
      with m(2) have "covers m (rs ! z)" by blast
      moreover from adj have "adjacent (rs ! z) (rs ! y)" by (simp add: adjacent_sym)
      ultimately have "adjacent m (rs ! y)" by (rule adjacent_mono)
      with k2 m(1) yl y(2) show False by blast
    qed
    with zu show ?case by simp
  qed
  with cg show ?thesis by simp
qed

lemma mergeInv_step:
  assumes inv: "mergeInv rs merged used"
    and i: "i < length rs" "i \<notin> used"
    and loop: "mergeLoop s rs (rs ! i, insert i used) = (c', u')"
  shows "mergeInv rs (merged @ [c']) u'"
proof -
  from mergeLoop_result[OF loop] have
    sub: "insert i used \<subseteq> u'" "u' \<subseteq> insert i used \<union> {..<length rs}" and
    quiet: "\<forall>k<length rs. k \<notin> u' \<longrightarrow> \<not> adjacent c' (rs ! k)" and
    t: "tight rs (rs ! i) \<longrightarrow> tight rs c'"
    by auto
  from inv have
    ub: "used \<subseteq> {..<length rs}" and len: "length merged \<le> card used" and
    k1: "\<forall>k\<in>used. \<exists>m\<in>set merged. \<forall>l. conn rs k l \<longrightarrow> covers m (rs ! l)" and
    k2: "\<forall>m\<in>set merged. tight rs m \<and> (\<forall>l<length rs. l \<notin> used \<longrightarrow> \<not> adjacent m (rs ! l))"
    unfolding mergeInv_def by auto
  have ub': "u' \<subseteq> {..<length rs}"
    using sub ub i by auto
  have "tight rs (rs ! i)"
    unfolding tight_def using i(1) covers_refl by blast
  with t have t': "tight rs c'" by simp
  have fin: "finite u'"
    using ub' finite_subset by blast
  have "card used < card u'"
    using sub i(2) fin by (intro psubset_card_mono) auto
  with len have len': "length (merged @ [c']) \<le> card u'"
    by simp
  have k1': "\<exists>m\<in>set (merged @ [c']). \<forall>l. conn rs k l \<longrightarrow> covers m (rs ! l)" if "k \<in> u'" for k
  proof (cases "k \<in> used")
    case True
    with k1 show ?thesis by auto
  next
    case False
    have "\<forall>l. conn rs k l \<longrightarrow> covers c' (rs ! l)"
      using mergeLoop_group[OF inv i loop that False] by blast
    then show ?thesis by auto
  qed
  have k2': "tight rs m \<and> (\<forall>l<length rs. l \<notin> u' \<longrightarrow> \<not> adjacent m (rs ! l))"
    if "m \<in> set (merged @ [c'])" for m
  proof (cases "m \<in> set merged")
    case True
    with k2 sub show ?thesis by blast
  next
    case False
    with that have "m = c'" by simp
    with t' quiet show ?thesis by simp
  qed
  show ?thesis
    unfolding mergeInv_def using ub' len' k1' k2' by blast
qed

lemma mergeFrom_inv:
  "mergeFrom s rs i (merged, used) = (merged', used') \<Longrightarrow> mergeInv rs merged used \<Longrightarrow>
     {..<i} \<subseteq> used \<Longrightarrow> mergeInv rs merged' used' \<and> {..<length rs} \<subseteq> used'"
proof (induction s rs i "(merged, used)" arbitrary: merged used rule: mergeFrom.induct)
  case (1 s rs i merged used)
  show ?case
  proof (cases "i < length rs")
    case False
    with "1.prems" show ?thesis
      by (auto simp: mergeFrom.simps)
  next
    case lt: True
    show ?thesis
    proof (cases "i \<in> used")
      case True
      with lt "1.prems"(1) have e: "mergeFrom s rs (i + 1) (merged, used) = (merged', used')"
        by (simp add: mergeFrom.simps)
      have "{..<i + 1} \<subseteq> used"
        using True "1.prems"(3) by (auto simp: less_Suc_eq)
      from "1.hyps"(1)[OF lt True e "1.prems"(2) this] show ?thesis .
    next
      case nu: False
      obtain c' u' where loop: "mergeLoop s rs (rs ! i, insert i used) = (c', u')"
        by (metis surj_pair)
      with lt nu "1.prems"(1)
      have e: "mergeFrom s rs (i + 1) (merged @ [c'], u') = (merged', used')"
        by (simp add: mergeFrom.simps)
      have inv': "mergeInv rs (merged @ [c']) u'"
        by (rule mergeInv_step[OF "1.prems"(2) lt nu loop])
      from mergeLoop_result[OF loop] have "insert i used \<subseteq> u'" by simp
      with "1.prems"(3) have "{..<i + 1} \<subseteq> u'"
        by (auto simp: less_Suc_eq)
      from "1.hyps"(2)[OF lt nu loop[symmetric] e inv' this] show ?thesis .
    qed
  qed
qed

lemma conn_bound: "conn rs k l \<Longrightarrow> k < length rs \<Longrightarrow> l < length rs"
  unfolding conn_def by (induction rule: rtrancl_induct) (auto simp: adjRel_def)

subsection \<open>The separated case\<close>

lemma member_inside: "finite T \<Longrightarrow> r \<in> T \<Longrightarrow> insideHull T r"
  by (simp add: insideHull_def hullLeft_def hullRight_def hullTop_def hullBottom_def)

lemma inside_absorb: "insideHull T c \<Longrightarrow> insideHull T r \<Longrightarrow> insideHull T (absorb s c r)"
  by (auto simp: insideHull_def absorb_def Let_def)

lemma inside_adjacent: "insideHull T c \<Longrightarrow> insideHull U r \<Longrightarrow> adjacent c r \<Longrightarrow> hullsAdjacent T U"
  by (auto simp: insideHull_def adjacent_def hullsAdjacent_def)

lemma hull_eq:
  assumes "finite T" "T \<noteq> {}" "insideHull T m" "\<forall>r\<in>T. covers m r"
  shows "box m = hullBox T"
proof -
  have "r_x m \<le> hullLeft T"
    unfolding hullLeft_def using assms(1,2,4) by (simp add: covers_def)
  moreover have "r_y m \<le> hullTop T"
    unfolding hullTop_def using assms(1,2,4) by (simp add: covers_def)
  moreover have "hullRight T \<le> r_x m + r_width m"
    unfolding hullRight_def using assms(1,2,4) by (simp add: covers_def)
  moreover have "hullBottom T \<le> r_y m + r_height m"
    unfolding hullBottom_def using assms(1,2,4) by (simp add: covers_def)
  ultimately show ?thesis
    using assms(3) by (auto simp: box_def hullBox_def insideHull_def)
qed

lemma sym_adjOn: "sym (adjOn S)"
  by (auto simp: sym_def adjOn_def adjacent_sym)

lemma component_self: "a \<in> component S a"
  by (simp add: component_def)

lemma component_subset: "a \<in> S \<Longrightarrow> component S a \<subseteq> S"
proof
  fix b assume a: "a \<in> S" and "b \<in> component S a"
  then have "(a, b) \<in> (adjOn S)\<^sup>*" by (simp add: component_def)
  then show "b \<in> S"
    by (induction rule: rtrancl_induct) (use a in \<open>auto simp: adjOn_def\<close>)
qed

lemma component_eq: "b \<in> component S a \<Longrightarrow> component S b = component S a"
proof -
  assume "b \<in> component S a"
  then have ab: "(a, b) \<in> (adjOn S)\<^sup>*" by (simp add: component_def)
  then have ba: "(b, a) \<in> (adjOn S)\<^sup>*"
    using sym_rtrancl[OF sym_adjOn] by (simp add: sym_def)
  show ?thesis
    unfolding component_def using ab ba by (auto intro: rtrancl_trans)
qed

lemma conn_component:
  "conn rs k l \<Longrightarrow> k < length rs \<Longrightarrow> rs ! l \<in> component (set rs) (rs ! k)"
  unfolding conn_def component_def
proof (induction rule: rtrancl_induct)
  case base
  show ?case by simp
next
  case (step y z)
  then have "(rs ! y, rs ! z) \<in> adjOn (set rs)"
    by (auto simp: adjRel_def adjOn_def)
  with step show ?case
    by (simp add: rtrancl.rtrancl_into_rtrancl)
qed

lemma component_conn:
  "b \<in> component (set rs) (rs ! k) \<Longrightarrow> k < length rs \<Longrightarrow> \<exists>l. conn rs k l \<and> l < length rs \<and> rs ! l = b"
  unfolding component_def mem_Collect_eq
proof (induction rule: rtrancl_induct)
  case base
  then show ?case
    by (intro exI[of _ k]) (simp add: conn_def)
next
  case (step y z)
  then obtain l where l: "conn rs k l" "l < length rs" "rs ! l = y"
    by blast
  from step(2) have "z \<in> set rs" "adjacent y z"
    by (simp_all add: adjOn_def)
  then obtain l' where l': "l' < length rs" "rs ! l' = z"
    by (auto simp: in_set_conv_nth)
  with l \<open>adjacent y z\<close> have "(l, l') \<in> adjRel rs"
    by (simp add: adjRel_def)
  with l(1) have "conn rs k l'"
    by (simp add: conn_def)
  with l' show ?case by blast
qed

text \<open>An invariant of the accumulated box, and a property of the absorbed indices.\<close>

lemma mergePass_inv:
  assumes step: "\<And>c j. P c \<Longrightarrow> j < length rs \<Longrightarrow> adjacent c (rs ! j) \<Longrightarrow>
      P (absorb s c (rs ! j)) \<and> Q j"
  shows "mergePass s rs j (c, u, d) = (c', u', d') \<Longrightarrow> P c \<Longrightarrow> P c' \<and> (\<forall>k\<in>u' - u. Q k)"
  using step
proof (induction s rs j "(c, u, d)" arbitrary: c u d rule: mergePass.induct)
  case (1 s rs j c u d)
  note eq = "1.prems"(1) and pc = "1.prems"(2) and st = "1.prems"(3)
  show ?case
  proof (cases "j < length rs")
    case False
    with eq pc show ?thesis by (simp add: mergePass.simps)
  next
    case lt: True
    show ?thesis
    proof (cases "j \<in> u")
      case True
      with lt eq have "mergePass s rs (j + 1) (c, u, d) = (c', u', d')"
        by (simp add: mergePass.simps)
      from "1.hyps"(1)[OF lt True this pc st] show ?thesis .
    next
      case nu: False
      show ?thesis
      proof (cases "adjacent c (rs ! j)")
        case True
        let ?c = "absorb s c (rs ! j)"
        from True lt nu eq
        have e: "mergePass s rs (j + 1) (?c, insert j u, True) = (c', u', d')"
          by (simp add: mergePass.simps)
        from st[OF pc lt True] have p: "P ?c" "Q j"
          by simp_all
        from "1.hyps"(2)[OF lt nu True e p(1) st] p(2) show ?thesis
          by auto
      next
        case False
        with lt nu eq have "mergePass s rs (j + 1) (c, u, d) = (c', u', d')"
          by (simp add: mergePass.simps)
        from "1.hyps"(3)[OF lt nu False this pc st] show ?thesis .
      qed
    qed
  qed
qed

lemma mergeLoop_inv:
  assumes step: "\<And>c j. P c \<Longrightarrow> j < length rs \<Longrightarrow> adjacent c (rs ! j) \<Longrightarrow>
      P (absorb s c (rs ! j)) \<and> Q j"
  shows "mergeLoop s rs (c, u) = (c', u') \<Longrightarrow> P c \<Longrightarrow> P c' \<and> (\<forall>k\<in>u' - u. Q k)"
  using step
proof (induction s rs "(c, u)" arbitrary: c u rule: mergeLoop.induct)
  case (1 s rs c u)
  note eq = "1.prems"(1) and pc = "1.prems"(2) and st = "1.prems"(3)
  obtain c1 u1 d1 where p: "mergePass s rs 0 (c, u, False) = (c1, u1, d1)"
    by (metis prod_cases3)
  from mergePass_inv[of P rs s Q, OF st p pc] have i1: "P c1" "\<forall>k\<in>u1 - u. Q k"
    by simp_all
  show ?case
  proof (cases d1)
    case False
    with p eq have "c' = c1" "u' = u1"
      by (simp_all add: mergeLoop.simps)
    with i1 show ?thesis by simp
  next
    case True
    with p eq have e: "mergeLoop s rs (c1, u1) = (c', u')"
      by (simp add: mergeLoop.simps)
    from "1.hyps"[OF p[symmetric] refl True e i1(1) st]
    have "P c'" "\<forall>k\<in>u' - u1. Q k"
      by simp_all
    with i1(2) show ?thesis by auto
  qed
qed

lemma sepInv_step:
  assumes sep: "separated (set rs)"
    and inv: "mergeInv rs merged used" and sinv: "sepInv rs merged used"
    and i: "i < length rs" "i \<notin> used"
    and loop: "mergeLoop s rs (rs ! i, insert i used) = (c', u')"
  shows "sepInv rs (merged @ [c']) u'"
proof -
  define C where "C = component (set rs) (rs ! i)"
  have iS: "rs ! i \<in> set rs"
    using i(1) by simp
  have CS: "C \<subseteq> set rs"
    unfolding C_def using iS by (rule component_subset)
  have fin: "finite C"
    using CS finite_subset by blast
  have iC: "rs ! i \<in> C"
    unfolding C_def by (rule component_self)
  have step: "insideHull C (absorb s c (rs ! j)) \<and> rs ! j \<in> C"
    if p: "insideHull C c" and j: "j < length rs" and a: "adjacent c (rs ! j)" for c j
  proof -
    have jS: "rs ! j \<in> set rs"
      using j by simp
    have jC: "rs ! j \<in> C"
    proof (rule ccontr)
      assume n: "rs ! j \<notin> C"
      let ?D = "component (set rs) (rs ! j)"
      have "finite ?D"
        using component_subset[OF jS] finite_subset by blast
      then have "insideHull ?D (rs ! j)"
        using component_self by (rule member_inside)
      with p a have "hullsAdjacent C ?D"
        by (intro inside_adjacent[of C c ?D "rs ! j"])
      moreover from sep iS jS n have "\<not> hullsAdjacent C ?D"
        unfolding separated_def C_def by blast
      ultimately show False by simp
    qed
    with fin have "insideHull C (rs ! j)"
      by (intro member_inside)
    with p have "insideHull C (absorb s c (rs ! j))"
      by (rule inside_absorb)
    with jC show ?thesis by simp
  qed
  have p0: "insideHull C (rs ! i)"
    using fin iC by (rule member_inside)
  from mergeLoop_inv[of "insideHull C" rs s "\<lambda>j. rs ! j \<in> C", OF step loop p0]
  have pc: "insideHull C c'" and q: "\<forall>k\<in>u' - insert i used. rs ! k \<in> C"
    by simp_all
  from mergeLoop_result[OF loop] have sub: "insert i used \<subseteq> u'"
    by simp
  have mem: "rs ! k \<in> C" if "k \<in> u'" "k \<notin> used" for k
    using that q iC by (cases "k = i") auto
  have cov: "covers c' b" if "b \<in> C" for b
  proof -
    from component_conn[OF that[unfolded C_def] i(1)]
    obtain l where l: "conn rs i l" "rs ! l = b"
      by blast
    from sub have "i \<in> u'" by simp
    from mergeLoop_group[OF inv i loop this i(2) l(1)] l(2) show ?thesis
      by simp
  qed
  have bx: "box c' = hullBox C"
    using fin iC pc cov by (intro hull_eq) auto
  from sinv have
    s1: "\<forall>k\<in>used. \<exists>m\<in>set merged. box m = hullBox (component (set rs) (rs ! k))" and
    s2: "\<forall>m\<in>set merged. box m \<in> componentBoxes (set rs)"
    unfolding sepInv_def by simp_all
  have s1': "\<exists>m\<in>set (merged @ [c']). box m = hullBox (component (set rs) (rs ! k))"
    if "k \<in> u'" for k
  proof (cases "k \<in> used")
    case True
    with s1 show ?thesis by auto
  next
    case False
    from mem[OF that False] have "component (set rs) (rs ! k) = C"
      unfolding C_def by (rule component_eq)
    with bx show ?thesis by simp
  qed
  have "box c' \<in> componentBoxes (set rs)"
    unfolding bx C_def componentBoxes_def using iS by blast
  with s2 have s2': "\<forall>m\<in>set (merged @ [c']). box m \<in> componentBoxes (set rs)"
    by simp
  from s1' s2' show ?thesis
    unfolding sepInv_def by blast
qed

lemma mergeFrom_sep:
  "mergeFrom s rs i (merged, used) = (merged', used') \<Longrightarrow> separated (set rs) \<Longrightarrow>
   mergeInv rs merged used \<Longrightarrow> sepInv rs merged used \<Longrightarrow> sepInv rs merged' used'"
proof (induction s rs i "(merged, used)" arbitrary: merged used rule: mergeFrom.induct)
  case (1 s rs i merged used)
  note eq = "1.prems"(1) and sep = "1.prems"(2) and inv = "1.prems"(3) and sinv = "1.prems"(4)
  show ?case
  proof (cases "i < length rs")
    case False
    with eq sinv show ?thesis
      by (simp add: mergeFrom.simps)
  next
    case lt: True
    show ?thesis
    proof (cases "i \<in> used")
      case True
      with lt eq have e: "mergeFrom s rs (i + 1) (merged, used) = (merged', used')"
        by (simp add: mergeFrom.simps)
      from "1.hyps"(1)[OF lt True e sep inv sinv] show ?thesis .
    next
      case nu: False
      obtain c' u' where loop: "mergeLoop s rs (rs ! i, insert i used) = (c', u')"
        by (metis surj_pair)
      with lt nu eq
      have e: "mergeFrom s rs (i + 1) (merged @ [c'], u') = (merged', used')"
        by (simp add: mergeFrom.simps)
      have inv': "mergeInv rs (merged @ [c']) u'"
        by (rule mergeInv_step[OF inv lt nu loop])
      have sinv': "sepInv rs (merged @ [c']) u'"
        by (rule sepInv_step[OF sep inv sinv lt nu loop])
      from "1.hyps"(2)[OF lt nu loop[symmetric] e sep inv' sinv'] show ?thesis .
    qed
  qed
qed

lemma component_single: "component {r} r = {r}"
  using component_subset[of r "{r}"] component_self[of r "{r}"] by blast

lemma hullBox_single: "hullBox {r} = box r"
  by (simp add: hullBox_def box_def hullLeft_def hullRight_def hullTop_def hullBottom_def)

lemma mergeRedactions_separated:
  assumes "separated (set rs)"
  shows "set (map box (mergeRedactions s rs)) = componentBoxes (set rs)"
proof (cases "length rs < 2")
  case True
  then consider "rs = []" | r where "rs = [r]"
    by (cases rs; cases "tl rs") auto
  then show ?thesis
  proof cases
    case 1
    then show ?thesis by (simp add: mergeRedactions_def componentBoxes_def)
  next
    case 2
    then show ?thesis
      by (simp add: mergeRedactions_def componentBoxes_def component_single hullBox_single)
  qed
next
  case False
  obtain merged used where e: "mergeFrom s rs 0 ([], {}) = (merged, used)"
    by (metis surj_pair)
  have i0: "mergeInv rs [] {}"
    by (simp add: mergeInv_def)
  have s0: "sepInv rs [] {}"
    by (simp add: sepInv_def)
  from mergeFrom_inv[OF e i0] have all: "{..<length rs} \<subseteq> used"
    by simp
  from mergeFrom_sep[OF e assms i0 s0] have
    s1: "\<forall>k\<in>used. \<exists>m\<in>set merged. box m = hullBox (component (set rs) (rs ! k))" and
    s2: "\<forall>m\<in>set merged. box m \<in> componentBoxes (set rs)"
    unfolding sepInv_def by simp_all
  from False e have m: "mergeRedactions s rs = merged"
    by (simp add: mergeRedactions_def)
  have "componentBoxes (set rs) \<subseteq> set (map box merged)"
  proof
    fix b assume "b \<in> componentBoxes (set rs)"
    then obtain a where a: "a \<in> set rs" "b = hullBox (component (set rs) a)"
      unfolding componentBoxes_def by blast
    then obtain k where k: "k < length rs" "rs ! k = a"
      by (auto simp: in_set_conv_nth)
    with all have "k \<in> used" by auto
    with s1 k a show "b \<in> set (map box merged)"
      by force
  qed
  moreover have "set (map box merged) \<subseteq> componentBoxes (set rs)"
    using s2 by auto
  ultimately show ?thesis
    unfolding m by blast
qed

lemma mergeRedactions_groups:
  "(\<forall>k<length rs. \<exists>m\<in>set (mergeRedactions s rs). \<forall>l. conn rs k l \<longrightarrow> covers m (rs ! l)) \<and>
   (\<forall>m\<in>set (mergeRedactions s rs). tight rs m) \<and>
   length (mergeRedactions s rs) \<le> length rs"
proof (cases "length rs < 2")
  case True
  then consider "rs = []" | r where "rs = [r]"
    by (cases rs; cases "tl rs") auto
  then show ?thesis
  proof cases
    case 1
    then show ?thesis by (simp add: mergeRedactions_def)
  next
    case 2
    have "covers r ([r] ! l)" if "conn [r] 0 l" for l
      using conn_bound[OF that] by (simp add: covers_refl)
    moreover have "tight [r] r"
      by (simp add: tight_def covers_refl)
    ultimately show ?thesis
      using 2 by (simp add: mergeRedactions_def)
  qed
next
  case False
  obtain merged used where e: "mergeFrom s rs 0 ([], {}) = (merged, used)"
    by (metis surj_pair)
  have "mergeInv rs [] {}"
    by (simp add: mergeInv_def)
  from mergeFrom_inv[OF e this] have inv: "mergeInv rs merged used" and all: "{..<length rs} \<subseteq> used"
    by simp_all
  from False e have m: "mergeRedactions s rs = merged"
    by (simp add: mergeRedactions_def)
  from inv have "card used \<le> length rs"
    unfolding mergeInv_def using subset_eq_atLeast0_lessThan_card
    by (metis atLeast0LessThan)
  with inv have "length merged \<le> length rs"
    unfolding mergeInv_def by linarith
  with inv all m show ?thesis
    unfolding mergeInv_def by blast
qed

subsection \<open>The example boxes\<close>

lemma component_closed:
  assumes "a \<in> T" and "\<forall>x\<in>T. \<forall>y\<in>S. adjacent x y \<longrightarrow> y \<in> T"
  shows "component S a \<subseteq> T"
proof
  fix b assume "b \<in> component S a"
  then have "(a, b) \<in> (adjOn S)\<^sup>*" by (simp add: component_def)
  then show "b \<in> T"
    by (induction rule: rtrancl_induct) (use assms in \<open>auto simp: adjOn_def\<close>)
qed

lemma component_adjacent: "a \<in> S \<Longrightarrow> b \<in> S \<Longrightarrow> adjacent a b \<Longrightarrow> b \<in> component S a"
  by (simp add: component_def adjOn_def r_into_rtrancl)

lemmas box_eval = boxA_def boxB_def boxC_def boxD_def newRedaction_def adjacent_def gap_def

lemma components_ABD:
  "component {boxA, boxD, boxB} boxA = {boxA, boxB}"
  "component {boxA, boxD, boxB} boxB = {boxA, boxB}"
  "component {boxA, boxD, boxB} boxD = {boxD}"
proof -
  let ?S = "{boxA, boxD, boxB}"
  have "component ?S boxA \<subseteq> {boxA, boxB}"
    by (rule component_closed) (simp_all add: box_eval)
  moreover have "boxB \<in> component ?S boxA"
    by (rule component_adjacent) (simp_all add: box_eval)
  ultimately show a: "component ?S boxA = {boxA, boxB}"
    using component_self[of boxA ?S] by blast
  then have "boxB \<in> component ?S boxA" by simp
  from component_eq[OF this] a show "component ?S boxB = {boxA, boxB}" by simp
  have "component ?S boxD \<subseteq> {boxD}"
    by (rule component_closed) (simp_all add: box_eval)
  then show "component ?S boxD = {boxD}"
    using component_self[of boxD ?S] by blast
qed

lemmas hull_eval = hullsAdjacent_def hullBox_def hullLeft_def hullRight_def hullTop_def hullBottom_def

lemma separated_ABD: "separated {boxA, boxD, boxB}"
  unfolding separated_def
  by (simp add: components_ABD hull_eval) (simp add: box_eval)

lemma componentBoxes_ABD: "componentBoxes {boxA, boxD, boxB} = {(0, 5, 100, 125), (300, 0, 20, 20)}"
  unfolding componentBoxes_def
  by (simp add: components_ABD hull_eval) (auto simp add: box_eval)

lemma components_ABC:
  "component {boxA, boxB, boxC} boxA = {boxA, boxB}"
  "component {boxA, boxB, boxC} boxB = {boxA, boxB}"
  "component {boxA, boxB, boxC} boxC = {boxC}"
proof -
  let ?S = "{boxA, boxB, boxC}"
  have "component ?S boxA \<subseteq> {boxA, boxB}"
    by (rule component_closed) (simp_all add: box_eval)
  moreover have "boxB \<in> component ?S boxA"
    by (rule component_adjacent) (simp_all add: box_eval)
  ultimately show a: "component ?S boxA = {boxA, boxB}"
    using component_self[of boxA ?S] by blast
  then have "boxB \<in> component ?S boxA" by simp
  from component_eq[OF this] a show "component ?S boxB = {boxA, boxB}" by simp
  have "component ?S boxC \<subseteq> {boxC}"
    by (rule component_closed) (simp_all add: box_eval)
  then show "component ?S boxC = {boxC}"
    using component_self[of boxC ?S] by blast
qed

lemma componentBoxes_ABC: "componentBoxes {boxA, boxB, boxC} = {(0, 5, 100, 125), (60, 0, 20, 20)}"
  unfolding componentBoxes_def
  by (simp add: components_ABC hull_eval) (auto simp add: box_eval)

lemmas merge_eval =
  mergeRedactions_def mergeFrom.simps mergeLoop.simps mergePass.simps
  boxA_def boxB_def boxC_def boxE_def newRedaction_def adjacent_def absorb_def gap_def

text \<open>
  Claim C1, as amended. \<open>mergeRedactions\<close> tests adjacency against the accumulated union
  (the union grown by 10 pixels meets the other box). For every list of candidate
  rectangles: all rectangles of one connected component of the adjacency graph lie inside
  one and the same output box; every output box is the bounding box of the input
  rectangles it contains; and the output is no longer than the input. When, moreover, the
  bounding boxes of different components are not adjacent to each other, the output is
  exactly the set of the bounding-box unions of the connected components, and this set is
  the same for every permutation of the input list.
\<close>

theorem mergeRedactions_components:
  "(\<forall>k<length rs. \<exists>m\<in>set (mergeRedactions s rs). \<forall>l. conn rs k l \<longrightarrow> covers m (rs ! l)) \<and>
   (\<forall>m\<in>set (mergeRedactions s rs). tight rs m) \<and>
   length (mergeRedactions s rs) \<le> length rs \<and>
   (separated (set rs) \<longrightarrow>
      set (map box (mergeRedactions s rs)) = componentBoxes (set rs) \<and>
      (\<forall>rs'. mset rs' = mset rs \<longrightarrow>
         set (map box (mergeRedactions s rs')) = set (map box (mergeRedactions s rs))))"
proof -
  have "set (map box (mergeRedactions s rs')) = set (map box (mergeRedactions s rs))"
    if sep: "separated (set rs)" and p: "mset rs' = mset rs" for rs'
  proof -
    from p have e: "set rs' = set rs"
      by (rule mset_eq_setD)
    with sep have "separated (set rs')" by simp
    from mergeRedactions_separated[OF this, of s] mergeRedactions_separated[OF sep, of s] e
    show ?thesis by simp
  qed
  with mergeRedactions_groups[of rs s] mergeRedactions_separated[of rs s] show ?thesis
    by blast
qed

theorem mergeRedactions_components_witness:
  "(\<exists>m\<in>set (mergeRedactions (3/2) [boxC, boxA, boxB]).
      covers m boxA \<and> covers m boxB) \<and>
   (\<exists>m. m \<in> set (mergeRedactions (3/2) [boxC, boxA, boxB]) \<and> tight [boxC, boxA, boxB] m) \<and>
   length (mergeRedactions (3/2) [boxC, boxA, boxB]) \<le> 3 \<and>
   separated (set [boxA, boxD, boxB]) \<and>
   set (map box (mergeRedactions (3/2) [boxA, boxD, boxB])) = {(0, 5, 100, 125), (300, 0, 20, 20)} \<and>
   set (map box (mergeRedactions (3/2) [boxD, boxB, boxA])) =
     set (map box (mergeRedactions (3/2) [boxA, boxD, boxB]))"
proof -
  let ?rs = "[boxC, boxA, boxB]"
  note th = mergeRedactions_components[of ?rs "3/2"]
  note th1 = th[THEN conjunct1]
    and th2 = th[THEN conjunct2, THEN conjunct1]
    and th3 = th[THEN conjunct2, THEN conjunct2, THEN conjunct1]
  have "(1, 2) \<in> adjRel ?rs"
    by (simp add: adjRel_def merge_eval)
  then have c: "conn ?rs 1 2" "conn ?rs 1 1"
    by (simp_all add: conn_def)
  have "(1::nat) < length ?rs"
    by simp
  with th1 obtain m where m: "m \<in> set (mergeRedactions (3/2) ?rs)"
    "\<forall>l. conn ?rs 1 l \<longrightarrow> covers m (?rs ! l)"
    by blast
  from m(2) c have "covers m (?rs ! 1) \<and> covers m (?rs ! 2)"
    by blast
  then have 1: "covers m boxA \<and> covers m boxB"
    by simp
  from th2 m(1) have 2: "tight ?rs m"
    by blast
  from th3 have 3: "length (mergeRedactions (3/2) ?rs) \<le> 3"
    by simp
  let ?qs = "[boxA, boxD, boxB]"
  note th4 = mergeRedactions_components[of ?qs "3/2", THEN conjunct2, THEN conjunct2, THEN conjunct2]
  have s: "set ?qs = {boxA, boxD, boxB}"
    by simp
  have 4: "separated (set ?qs)"
    unfolding s by (rule separated_ABD)
  have p: "mset [boxD, boxB, boxA] = mset ?qs"
    by simp
  from th4 4
  have 5: "set (map box (mergeRedactions (3/2) ?qs)) = componentBoxes (set ?qs)"
    and a: "\<forall>rs'. mset rs' = mset ?qs \<longrightarrow>
      set (map box (mergeRedactions (3/2) rs')) = set (map box (mergeRedactions (3/2) ?qs))"
    by blast+
  from a p have 6: "set (map box (mergeRedactions (3/2) [boxD, boxB, boxA])) =
      set (map box (mergeRedactions (3/2) ?qs))"
    by blast
  from 5 have 7: "set (map box (mergeRedactions (3/2) ?qs)) = {(0, 5, 100, 125), (300, 0, 20, 20)}"
    unfolding s componentBoxes_ABD .
  have 8: "\<exists>m\<in>set (mergeRedactions (3/2) ?rs). covers m boxA \<and> covers m boxB"
    using m(1) 1 by blast
  have 9: "\<exists>m. m \<in> set (mergeRedactions (3/2) ?rs) \<and> tight ?rs m"
    using m(1) 2 by blast
  show ?thesis
    by (intro conjI 8 9 3 4 7 6)
qed

text \<open>
  Claim C1 as stated fails. \<open>boxA\<close> and \<open>boxB\<close> are adjacent, \<open>boxC\<close> is adjacent to
  neither (under the code's test and under the specification's wording alike), so the
  adjacency graph has the two components \<open>{boxA, boxB}\<close> and \<open>{boxC}\<close>, with the boxes
  \<open>(0, 5, 100, 125)\<close> and \<open>(60, 0, 20, 20)\<close>. In the order \<open>[boxA, boxB, boxC]\<close> the merger
  returns one box, which is neither of them; in the order \<open>[boxC, boxA, boxB]\<close> it returns
  two. And \<open>boxE\<close>, 15 pixels below \<open>boxA\<close>, is adjacent to it as the specification words
  adjacency (both boxes grown by 10 pixels), yet the two are not merged: the code grows one
  box only.
\<close>

theorem mergeRedactions_components_counterexample:
  "mset [boxA, boxB, boxC] = mset [boxC, boxA, boxB] \<and>
   adjacent boxA boxB \<and> \<not> adjacent boxA boxC \<and> \<not> adjacent boxB boxC \<and>
   spec_adjacent boxA boxB \<and> \<not> spec_adjacent boxA boxC \<and> \<not> spec_adjacent boxB boxC \<and>
   componentBoxes (set [boxA, boxB, boxC]) = {(0, 5, 100, 125), (60, 0, 20, 20)} \<and>
   map box (mergeRedactions (3/2) [boxA, boxB, boxC]) = [(0, 0, 100, 130)] \<and>
   map box (mergeRedactions (3/2) [boxC, boxA, boxB]) = [(60, 0, 20, 20), (0, 5, 100, 125)] \<and>
   set (map box (mergeRedactions (3/2) [boxA, boxB, boxC])) \<noteq>
     componentBoxes (set [boxA, boxB, boxC]) \<and>
   set (map box (mergeRedactions (3/2) [boxA, boxB, boxC])) \<noteq>
     set (map box (mergeRedactions (3/2) [boxC, boxA, boxB])) \<and>
   spec_adjacent boxA boxE \<and>
   map box (mergeRedactions (3/2) [boxA, boxE]) = [(0, 5, 20, 100), (0, 120, 20, 20)]"
proof -
  have s: "set [boxA, boxB, boxC] = {boxA, boxB, boxC}"
    by simp
  have c: "componentBoxes (set [boxA, boxB, boxC]) = {(0, 5, 100, 125), (60, 0, 20, 20)}"
    unfolding s by (rule componentBoxes_ABC)
  have e: "mset [boxA, boxB, boxC] = mset [boxC, boxA, boxB] \<and>
   adjacent boxA boxB \<and> \<not> adjacent boxA boxC \<and> \<not> adjacent boxB boxC \<and>
   spec_adjacent boxA boxB \<and> \<not> spec_adjacent boxA boxC \<and> \<not> spec_adjacent boxB boxC \<and>
   map box (mergeRedactions (3/2) [boxA, boxB, boxC]) = [(0, 0, 100, 130)] \<and>
   map box (mergeRedactions (3/2) [boxC, boxA, boxB]) = [(60, 0, 20, 20), (0, 5, 100, 125)]"
    by (simp add: merge_eval spec_adjacent_def box_def)
  then have m: "map box (mergeRedactions (3/2) [boxA, boxB, boxC]) = [(0, 0, 100, 130)]"
    "map box (mergeRedactions (3/2) [boxC, boxA, boxB]) = [(60, 0, 20, 20), (0, 5, 100, 125)]"
    by blast+
  have d: "set (map box (mergeRedactions (3/2) [boxA, boxB, boxC])) \<noteq>
     componentBoxes (set [boxA, boxB, boxC])"
    "set (map box (mergeRedactions (3/2) [boxA, boxB, boxC])) \<noteq>
     set (map box (mergeRedactions (3/2) [boxC, boxA, boxB]))"
    unfolding c m by auto
  have f: "spec_adjacent boxA boxE"
    "map box (mergeRedactions (3/2) [boxA, boxE]) = [(0, 5, 20, 100), (0, 120, 20, 20)]"
    by (simp_all add: merge_eval spec_adjacent_def box_def)
  from e c d f show ?thesis
    by blast
qed

text \<open>
  Claim C2: merging the merger's own output should change nothing. On
  \<open>[boxC, boxA, boxB]\<close> the first run returns \<open>boxC\<close> and the union of \<open>boxA\<close> and \<open>boxB\<close>,
  which contains \<open>boxC\<close>; the second run merges the two into one box.
\<close>

theorem mergeRedactions_not_idempotent:
  "map box (mergeRedactions (3/2) [boxC, boxA, boxB]) = [(60, 0, 20, 20), (0, 5, 100, 125)] \<and>
   map box (mergeRedactions (3/2) (mergeRedactions (3/2) [boxC, boxA, boxB])) = [(0, 0, 100, 130)] \<and>
   mset (map box (mergeRedactions (3/2) (mergeRedactions (3/2) [boxC, boxA, boxB]))) \<noteq>
     mset (map box (mergeRedactions (3/2) [boxC, boxA, boxB]))"
  by (simp add: merge_eval box_def)

section \<open>Properties of findTextInArea and of the association loop\<close>

lemma picked_step:
  "j < length items \<Longrightarrow>
   picked s items r vt assigned j =
     (if j \<notin> assigned \<and> \<not> skippedText (items ! j) \<and> textInside s vt r (items ! j)
      then j # picked s items r vt assigned (j + 1) else picked s items r vt assigned (j + 1))"
  by (simp add: picked_def upt_conv_Cons)

lemma picked_insert: "picked s items r vt (insert j assigned) (Suc j) = picked s items r vt assigned (Suc j)"
  unfolding picked_def by (rule filter_cong) auto

lemma findLoop_eq:
  "findLoop s items r vt j (found, assigned) =
     (found @ map (\<lambda>i. foundEntry s vt i (items ! i)) (picked s items r vt assigned j),
      assigned \<union> set (picked s items r vt assigned j))"
proof (induction s items r vt j "(found, assigned)" arbitrary: found assigned rule: findLoop.induct)
  case (1 s items r vt j found assigned)
  show ?case
  proof (cases "j < length items")
    case False
    then show ?thesis
      by (simp add: findLoop.simps picked_def)
  next
    case lt: True
    show ?thesis
    proof (cases "j \<in> assigned")
      case True
      with lt "1.hyps"(1) show ?thesis
        by (simp add: findLoop.simps[of _ _ _ _ j] picked_step)
    next
      case na: False
      show ?thesis
      proof (cases "skippedText (items ! j)")
        case True
        with lt na "1.hyps"(2) show ?thesis
          by (simp add: findLoop.simps[of _ _ _ _ j] picked_step)
      next
        case ns: False
        show ?thesis
        proof (cases "textInside s vt r (items ! j)")
          case True
          with lt na ns "1.hyps"(3) show ?thesis
            by (simp add: findLoop.simps[of _ _ _ _ j] picked_step picked_insert)
        next
          case False
          with lt na ns "1.hyps"(4) show ?thesis
            by (simp add: findLoop.simps[of _ _ _ _ j] picked_step)
        qed
      qed
    qed
  qed
qed

lemma mset_insertBy: "mset (insertBy cmp a bs) = add_mset a (mset bs)"
  by (induction bs) auto

lemma mset_sortBy: "mset (sortBy cmp as) = mset as"
  by (induction as) (auto simp: mset_insertBy)

lemma set_sortBy: "set (sortBy cmp as) = set as"
  using mset_sortBy by (metis set_mset_mset)

lemma findTextInArea_eq:
  "findTextInArea s items r vt assigned =
     (sortBy byPosition (map (\<lambda>i. foundEntry s vt i (items ! i)) (picked s items r vt assigned 0)),
      assigned \<union> set (picked s items r vt assigned 0))"
  by (simp add: findTextInArea_def findLoop_eq)

lemma index_foundEntry: "h_index (foundEntry s vt i item) = i"
  by (simp add: foundEntry_def)

lemma found_indices:
  "mset (map h_index (fst (findTextInArea s items r vt assigned))) = mset (picked s items r vt assigned 0)"
proof -
  have "mset (map h_index (fst (findTextInArea s items r vt assigned))) =
        image_mset h_index (mset (map (\<lambda>i. foundEntry s vt i (items ! i)) (picked s items r vt assigned 0)))"
    by (simp add: findTextInArea_eq mset_sortBy)
  also have "\<dots> = mset (picked s items r vt assigned 0)"
    by (simp add: image_mset.compositionality comp_def index_foundEntry)
  finally show ?thesis .
qed

lemma set_picked:
  "set (picked s items r vt assigned 0) =
     {i. i < length items \<and> i \<notin> assigned \<and> \<not> skippedText (items ! i) \<and> textInside s vt r (items ! i)}"
  by (auto simp: picked_def)

lemma distinct_picked: "distinct (picked s items r vt assigned j)"
  by (simp add: picked_def)

lemma trim_Nil: "trim [] = []"
  by (simp add: trim_def)

lemma assigned_after:
  "snd (findTextInArea s items r vt assigned) =
     assigned \<union> h_index ` set (fst (findTextInArea s items r vt assigned))"
proof -
  have "h_index ` set (fst (findTextInArea s items r vt assigned)) = set (picked s items r vt assigned 0)"
    using found_indices[of s items r vt assigned] by (metis set_map set_mset_mset)
  then show ?thesis
    by (simp add: findTextInArea_eq)
qed

lemma found_entry:
  assumes "h \<in> set (fst (findTextInArea s items r vt assigned))"
  shows "h_index h < length items \<and> h_index h \<notin> assigned \<and> \<not> skippedText (items ! h_index h) \<and>
         textInside s vt r (items ! h_index h) \<and> h = foundEntry s vt (h_index h) (items ! h_index h)"
proof -
  from assms obtain i where i: "i \<in> set (picked s items r vt assigned 0)"
    "h = foundEntry s vt i (items ! i)"
    by (auto simp: findTextInArea_eq set_sortBy)
  then have "h_index h = i" by (simp add: index_foundEntry)
  with i show ?thesis by (simp add: set_picked)
qed

lemma found_iff:
  "(\<exists>h\<in>set (fst (findTextInArea s items r vt assigned)). h_index h = i) \<longleftrightarrow>
     i < length items \<and> i \<notin> assigned \<and> \<not> skippedText (items ! i) \<and> textInside s vt r (items ! i)"
proof -
  have "(\<exists>h\<in>set (fst (findTextInArea s items r vt assigned)). h_index h = i) \<longleftrightarrow>
        i \<in> h_index ` set (fst (findTextInArea s items r vt assigned))"
    by auto
  also have "h_index ` set (fst (findTextInArea s items r vt assigned)) = set (picked s items r vt assigned 0)"
    using found_indices[of s items r vt assigned] by (metis set_map set_mset_mset)
  finally show ?thesis by (simp add: set_picked)
qed

lemma associate_mem:
  "r' \<in> set (fst (associate s items vt regions assigned)) \<Longrightarrow>
     \<exists>r\<in>set regions. \<exists>A. assigned \<subseteq> A \<and> r' = r\<lparr>hiddenText := fst (findTextInArea s items r vt A)\<rparr>"
proof (induction regions arbitrary: assigned)
  case Nil
  then show ?case by simp
next
  case (Cons r regions)
  let ?A = "snd (findTextInArea s items r vt assigned)"
  from Cons.prems consider "r' = r\<lparr>hiddenText := fst (findTextInArea s items r vt assigned)\<rparr>"
    | "r' \<in> set (fst (associate s items vt regions ?A))"
    by (auto split: prod.splits)
  then show ?case
  proof cases
    case 1
    then show ?thesis by auto
  next
    case 2
    from Cons.IH[OF 2] obtain r0 A where "r0 \<in> set regions" "?A \<subseteq> A"
      "r' = r0\<lparr>hiddenText := fst (findTextInArea s items r0 vt A)\<rparr>"
      by blast
    moreover have "assigned \<subseteq> ?A"
      by (simp add: assigned_after)
    ultimately have "r0 \<in> set (r # regions)" "assigned \<subseteq> A"
      "r' = r0\<lparr>hiddenText := fst (findTextInArea s items r0 vt A)\<rparr>"
      by auto
    then show ?thesis by blast
  qed
qed

lemma associate_indices:
  "distinct (concat (map (map h_index \<circ> hiddenText) (fst (associate s items vt regions assigned)))) \<and>
   set (concat (map (map h_index \<circ> hiddenText) (fst (associate s items vt regions assigned)))) \<inter> assigned = {}"
proof (induction regions arbitrary: assigned)
  case Nil
  show ?case by simp
next
  case (Cons r regions)
  define F where "F = map h_index (fst (findTextInArea s items r vt assigned))"
  define A where "A = snd (findTextInArea s items r vt assigned)"
  define R where "R = concat (map (map h_index \<circ> hiddenText) (fst (associate s items vt regions A)))"
  have e: "concat (map (map h_index \<circ> hiddenText) (fst (associate s items vt (r # regions) assigned)))
        = F @ R"
    by (simp add: F_def A_def R_def split: prod.splits)
  have m: "mset F = mset (picked s items r vt assigned 0)"
    unfolding F_def by (rule found_indices)
  have d: "distinct F"
    using m distinct_picked by (metis mset_eq_imp_distinct_iff)
  have s1: "set F = set (picked s items r vt assigned 0)"
    using m by (metis set_mset_mset)
  have a: "A = assigned \<union> set F"
    by (simp add: A_def F_def assigned_after)
  have n: "set F \<inter> assigned = {}"
    unfolding s1 by (auto simp: set_picked)
  from Cons.IH[of A] have ih: "distinct R" "set R \<inter> A = {}"
    unfolding R_def by blast+
  from ih(2) a have "set R \<inter> set F = {}" "set R \<inter> assigned = {}"
    by auto
  with d ih(1) n have "distinct (F @ R) \<and> set (F @ R) \<inter> assigned = {}"
    by auto
  then show ?case
    unfolding e .
qed

lemmas text_eval =
  findTextInArea_def findLoop.simps skippedText_def trim_def isWhiteSpace_def textInside_def
  foundEntry_def fontSizeOf_def itemWidthOf_def canvasXOf_def canvasYOf_def orElse_def
  tr0_def tr3_def tr4_def tr5_def byPosition_def newRedaction_def Let_def

text \<open>
  Claim C3. For a fragment that is not yet assigned and whose trimmed text is neither
  empty nor the sentinel, \<open>findTextInArea\<close> puts the fragment (by its source index) on the
  region's list if and only if the horizontal overlap ratio is at least 0.5, the vertical
  centre of the fragment lies in the region's vertical span, both ends included, and the
  vertical intersection is positive. The fragment's box starts at its transformed origin,
  is as wide as the fragment (or \<open>len(text) * fontSize * 0.6\<close> when the width is absent or
  zero) times the scale, and spans \<open>[originY - height, originY]\<close>. The set of assigned
  indices returned is the old set plus the indices put on the list.
\<close>

theorem findTextInArea_assigns:
  assumes "i < length textItems" and "i \<notin> assigned"
    and "trim (str (textItems ! i)) \<noteq> []" and "trim (str (textItems ! i)) \<noteq> ''1111''"
  shows "let item = textItems ! i;
             fontSize = (if \<bar>tr0 (t_transform item)\<bar> = 0 then 12 else \<bar>tr0 (t_transform item)\<bar>);
             fallback = of_nat (length (str item)) * fontSize * (6/10);
             width = (case t_width item of None \<Rightarrow> fallback
                      | Some w \<Rightarrow> if w = 0 then fallback else w) * scale;
             height = fontSize * scale;
             originX = tr0 vt * tr4 (t_transform item) + tr4 vt;
             originY = tr3 vt * tr5 (t_transform item) + tr5 vt;
             left = of_int (r_x region);
             right = of_int (r_x region + r_width region);
             top = of_int (r_y region);
             bottom = of_int (r_y region + r_height region);
             ratio = max 0 (min (originX + width) right - max originX left) / width;
             centre = ((originY - height) + originY) / 2;
             vertical = max 0 (min originY bottom - max (originY - height) top);
             result = findTextInArea scale textItems region vt assigned
         in ((\<exists>h\<in>set (fst result). h_index h = i) \<longleftrightarrow>
               ratio \<ge> 1/2 \<and> top \<le> centre \<and> centre \<le> bottom \<and> vertical > 0) \<and>
            snd result = assigned \<union> h_index ` set (fst result)"
proof -
  let ?item = "textItems ! i"
  let ?result = "findTextInArea scale textItems region vt assigned"
  from assms(3) have "str ?item \<noteq> []"
    using trim_Nil by metis
  with assms have a: "(\<exists>h\<in>set (fst ?result). h_index h = i) \<longleftrightarrow> textInside scale vt region ?item"
    by (simp add: found_iff skippedText_def)
  have c: "snd ?result = assigned \<union> h_index ` set (fst ?result)"
    by (rule assigned_after)
  show ?thesis
    unfolding Let_def a using c
    unfolding textInside_def fontSizeOf_def itemWidthOf_def canvasXOf_def canvasYOf_def
      orElse_def Let_def option.case
    by simp
qed

theorem findTextInArea_assigns_witness:
  "(\<exists>h\<in>set (fst (findTextInArea (3/2) [fragSecret, fragSentinel] regionR pageVt {})). h_index h = 0) \<and>
   snd (findTextInArea (3/2) [fragSecret, fragSentinel] regionR pageVt {}) =
     h_index ` set (fst (findTextInArea (3/2) [fragSecret, fragSentinel] regionR pageVt {}))"
proof -
  define result where "result = findTextInArea (3/2) [fragSecret, fragSentinel] regionR pageVt {}"
  have h: "0 < length [fragSecret, fragSentinel]" "0 \<notin> ({} :: nat set)"
    "trim (str ([fragSecret, fragSentinel] ! 0)) \<noteq> []"
    "trim (str ([fragSecret, fragSentinel] ! 0)) \<noteq> ''1111''"
    by (simp_all add: fragSecret_def trim_def isWhiteSpace_def)
  have a: "[fragSecret, fragSentinel] ! 0 = fragSecret"
    by simp
  note th = findTextInArea_assigns[OF h, of "3/2" pageVt regionR, folded result_def,
      unfolded Let_def a]
  then have "(\<exists>h\<in>set (fst result). h_index h = 0) \<and> snd result = h_index ` set (fst result)"
    by (simp add: fragSecret_def regionR_def pageVt_def tr0_def tr3_def tr4_def tr5_def
        newRedaction_def)
  then show ?thesis
    unfolding result_def .
qed

text \<open>
  Claim C6. After the regions of a page have been associated, starting from the empty
  set of assigned indices, the source indices on the \<open>hiddenText\<close> lists of all regions
  taken together hold no duplicate: a fragment is assigned to at most one region.
\<close>

theorem associate_disjoint:
  "distinct (concat (map (map h_index \<circ> hiddenText) (fst (associate scale textItems vt regions {}))))"
  using associate_indices[of scale textItems vt regions "{}"] by blast

theorem associate_disjoint_witness:
  "map (map h_index \<circ> hiddenText)
     (fst (associate (3/2) [fragSecret, fragSentinel] pageVt [regionR, regionR] {})) = [[0], []] \<and>
   distinct (concat (map (map h_index \<circ> hiddenText)
     (fst (associate (3/2) [fragSecret, fragSentinel] pageVt [regionR, regionR] {}))))"
proof -
  have "map (map h_index \<circ> hiddenText)
     (fst (associate (3/2) [fragSecret, fragSentinel] pageVt [regionR, regionR] {})) = [[0], []]"
    by (simp add: text_eval fragSecret_def fragSentinel_def regionR_def pageVt_def)
  with associate_disjoint[of "3/2" "[fragSecret, fragSentinel]" pageVt "[regionR, regionR]"]
  show ?thesis by blast
qed

lemma revealRedactedText_texts:
  "d \<in> set (revealRedactedText regions) \<Longrightarrow> \<exists>r\<in>set regions. \<exists>h\<in>set (hiddenText r). d_text d = h_text h"
  by (fastforce simp: revealRedactedText_def drawFound_def)

lemma renderTextForExport_texts:
  "d \<in> set (renderTextForExport s vt regions items) \<Longrightarrow>
     \<exists>item\<in>set items. \<not> skippedText item \<and> isInRedaction s vt regions item \<and> d_text d = str item"
  by (induction items) (auto split: if_splits)

lemma renderTextLayerForRedactions_texts:
  "sp \<in> set (renderTextLayerForRedactions s vt sx sy regions items) \<Longrightarrow>
     \<exists>item\<in>set items. \<not> skippedText item \<and> isInRedaction s vt regions item \<and> s_text sp = str item"
  by (induction items) (auto split: if_splits)

lemma associate_hidden:
  assumes "r \<in> set (fst (associate s items vt regions assigned))" "h \<in> set (hiddenText r)"
  shows "h_index h < length items \<and> h_text h = str (items ! h_index h) \<and>
         \<not> skippedText (items ! h_index h)"
proof -
  from associate_mem[OF assms(1)] obtain r0 A where
    "r = r0\<lparr>hiddenText := fst (findTextInArea s items r0 vt A)\<rparr>"
    by blast
  with assms(2) have "h \<in> set (fst (findTextInArea s items r0 vt A))"
    by simp
  from found_entry[OF this] have "h_index h < length items" "\<not> skippedText (items ! h_index h)"
    "h = foundEntry s vt (h_index h) (items ! h_index h)"
    by simp_all
  moreover from this(3) have "h_text h = str (items ! h_index h)"
    by (metis foundEntry_def foundItem.select_convs(1))
  ultimately show ?thesis by simp
qed

lemmas export_eval =
  exportOverlap_def skippedText_def trim_def isWhiteSpace_def
  fontSizeOf_def itemWidthOf_def canvasXOf_def canvasYOf_def orElse_def
  tr0_def tr3_def tr4_def tr5_def newRedaction_def Let_def

text \<open>
  Claim C7. A fragment whose trimmed text is empty or is the sentinel \<open>1111\<close> is on no
  region's \<open>hiddenText\<close> list, whatever its position, and no text routine draws it: every
  entry of a \<open>hiddenText\<close> list carries the text of the item at its source index, whose
  trimmed text is neither empty nor the sentinel, and the same holds for the texts drawn
  by \<open>revealRedactedText\<close>, \<open>renderTextForExport\<close> and \<open>renderTextLayerForRedactions\<close>.
\<close>

theorem sentinel_excluded:
  "(\<forall>r\<in>set (fst (associate scale textItems vt regions assigned)). \<forall>h\<in>set (hiddenText r).
      h_index h < length textItems \<and> h_text h = str (textItems ! h_index h) \<and>
      trim (h_text h) \<noteq> [] \<and> trim (h_text h) \<noteq> ''1111'') \<and>
   (\<forall>d\<in>set (revealRedactedText (fst (associate scale textItems vt regions assigned))).
      trim (d_text d) \<noteq> [] \<and> trim (d_text d) \<noteq> ''1111'') \<and>
   (\<forall>d\<in>set (renderTextForExport scale vt redactions textItems).
      trim (d_text d) \<noteq> [] \<and> trim (d_text d) \<noteq> ''1111'') \<and>
   (\<forall>sp\<in>set (renderTextLayerForRedactions scale vt scaleX scaleY redactions textItems).
      trim (s_text sp) \<noteq> [] \<and> trim (s_text sp) \<noteq> ''1111'')"
proof -
  let ?page = "fst (associate scale textItems vt regions assigned)"
  have a: "h_index h < length textItems \<and> h_text h = str (textItems ! h_index h) \<and>
      trim (h_text h) \<noteq> [] \<and> trim (h_text h) \<noteq> ''1111''"
    if "r \<in> set ?page" "h \<in> set (hiddenText r)" for r h
    using associate_hidden[OF that] by (simp add: skippedText_def)
  have b: "trim (d_text d) \<noteq> [] \<and> trim (d_text d) \<noteq> ''1111''"
    if "d \<in> set (revealRedactedText ?page)" for d
    using revealRedactedText_texts[OF that] a by metis
  have c: "trim (d_text d) \<noteq> [] \<and> trim (d_text d) \<noteq> ''1111''"
    if "d \<in> set (renderTextForExport scale vt redactions textItems)" for d
    using renderTextForExport_texts[OF that] by (auto simp: skippedText_def)
  have d: "trim (s_text sp) \<noteq> [] \<and> trim (s_text sp) \<noteq> ''1111''"
    if "sp \<in> set (renderTextLayerForRedactions scale vt scaleX scaleY redactions textItems)" for sp
    using renderTextLayerForRedactions_texts[OF that] by (auto simp: skippedText_def)
  from a b c d show ?thesis by blast
qed

theorem sentinel_excluded_witness:
  "textInside (3/2) pageVt regionR fragSentinel \<and>
   exportOverlap (3/2) pageVt regionR fragSentinel \<and>
   map (map h_text \<circ> hiddenText)
     (fst (associate (3/2) [fragSentinel, fragSecret] pageVt [regionR] {})) = [[''Secret'']] \<and>
   map d_text (renderTextForExport (3/2) pageVt [regionR] [fragSentinel, fragSecret]) = [''Secret''] \<and>
   \<not> (\<exists>r\<in>set (fst (associate (3/2) [fragSentinel, fragSecret] pageVt [regionR] {})).
        \<exists>h\<in>set (hiddenText r). h_text h = str fragSentinel) \<and>
   \<not> (\<exists>d\<in>set (renderTextForExport (3/2) pageVt [regionR] [fragSentinel, fragSecret]).
        d_text d = str fragSentinel) \<and>
   \<not> (\<exists>sp\<in>set (renderTextLayerForRedactions (3/2) pageVt 1 1 [regionR] [fragSentinel, fragSecret]).
        s_text sp = str fragSentinel)"
proof -
  note th = sentinel_excluded[of "3/2" "[fragSentinel, fragSecret]" pageVt "[regionR]" "{}"
      "[regionR]" 1 1]
  have t: "trim (str fragSentinel) = ''1111''"
    by (simp add: fragSentinel_def trim_def isWhiteSpace_def)
  have 1: "textInside (3/2) pageVt regionR fragSentinel"
    by (simp add: text_eval fragSentinel_def regionR_def pageVt_def)
  have 2: "exportOverlap (3/2) pageVt regionR fragSentinel"
    by (simp add: export_eval fragSentinel_def regionR_def pageVt_def)
  have 3: "map (map h_text \<circ> hiddenText)
     (fst (associate (3/2) [fragSentinel, fragSecret] pageVt [regionR] {})) = [[''Secret'']]"
    by (simp add: text_eval fragSecret_def fragSentinel_def regionR_def pageVt_def)
  have 4: "map d_text (renderTextForExport (3/2) pageVt [regionR] [fragSentinel, fragSecret]) = [''Secret'']"
    by (simp add: export_eval fragSecret_def fragSentinel_def regionR_def pageVt_def)
  from th t have 5: "\<not> (\<exists>r\<in>set (fst (associate (3/2) [fragSentinel, fragSecret] pageVt [regionR] {})).
        \<exists>h\<in>set (hiddenText r). h_text h = str fragSentinel)"
    by metis
  from th t have 6: "\<not> (\<exists>d\<in>set (renderTextForExport (3/2) pageVt [regionR] [fragSentinel, fragSecret]).
        d_text d = str fragSentinel)"
    by metis
  from th t have 7: "\<not> (\<exists>sp\<in>set (renderTextLayerForRedactions (3/2) pageVt 1 1 [regionR] [fragSentinel, fragSecret]).
        s_text sp = str fragSentinel)"
    by metis
  from 1 2 3 4 5 6 7 show ?thesis by blast
qed

section \<open>The order of a hiddenText list\<close>

lemma byPosition_le: "byPosition a b \<le> 0 \<longleftrightarrow> inReadingOrder a b"
  by (simp add: byPosition_def inReadingOrder_def)

lemma byPosition_total: "byPosition a b > 0 \<Longrightarrow> inReadingOrder b a"
  by (auto simp: byPosition_def inReadingOrder_def abs_minus_commute split: if_splits)

lemma inReadingOrder_trans:
  assumes t1: "\<bar>h_y a - h_y b\<bar> < 5 \<and> \<bar>h_y b - h_y c\<bar> < 5 \<longrightarrow> \<bar>h_y a - h_y c\<bar> < 5"
    and t2: "\<bar>h_y b - h_y a\<bar> < 5 \<and> \<bar>h_y a - h_y c\<bar> < 5 \<longrightarrow> \<bar>h_y b - h_y c\<bar> < 5"
    and t3: "\<bar>h_y a - h_y c\<bar> < 5 \<and> \<bar>h_y c - h_y b\<bar> < 5 \<longrightarrow> \<bar>h_y a - h_y b\<bar> < 5"
    and ab: "inReadingOrder a b" and bc: "inReadingOrder b c"
  shows "inReadingOrder a c"
proof -
  define P where "P \<longleftrightarrow> \<bar>h_y a - h_y b\<bar> < 5"
  define Q where "Q \<longleftrightarrow> \<bar>h_y b - h_y c\<bar> < 5"
  define R where "R \<longleftrightarrow> \<bar>h_y a - h_y c\<bar> < 5"
  have ba: "\<bar>h_y b - h_y a\<bar> = \<bar>h_y a - h_y b\<bar>" and cb: "\<bar>h_y c - h_y b\<bar> = \<bar>h_y b - h_y c\<bar>"
    by (rule abs_minus_commute)+
  have pq: "P \<and> Q \<longrightarrow> R"
    using t1 unfolding P_def Q_def R_def .
  have pr: "P \<and> R \<longrightarrow> Q"
    using t2 unfolding ba P_def Q_def R_def .
  have rq: "R \<and> Q \<longrightarrow> P"
    using t3 unfolding cb P_def Q_def R_def .
  have ab': "if P then h_x a \<le> h_x b else h_y a \<le> h_y b"
    using ab by (simp add: inReadingOrder_def P_def)
  have bc': "if Q then h_x b \<le> h_x c else h_y b \<le> h_y c"
    using bc by (simp add: inReadingOrder_def Q_def)
  have goal: "inReadingOrder a c \<longleftrightarrow> (if R then h_x a \<le> h_x c else h_y a \<le> h_y c)"
    by (simp add: inReadingOrder_def R_def)
  show ?thesis
  proof (cases P)
    case p: True
    show ?thesis
    proof (cases Q)
      case True
      with p pq ab' bc' show ?thesis unfolding goal by auto
    next
      case False
      with p pr have nr: "\<not> R" by blast
      from False bc' have "h_y b \<le> h_y c" "\<not> \<bar>h_y b - h_y c\<bar> < 5"
        by (simp_all add: Q_def)
      moreover from p have "\<bar>h_y a - h_y b\<bar> < 5" by (simp add: P_def)
      ultimately have "h_y a \<le> h_y c" by linarith
      with nr show ?thesis unfolding goal by simp
    qed
  next
    case np: False
    with ab' have l: "h_y a \<le> h_y b" "\<not> \<bar>h_y a - h_y b\<bar> < 5"
      by (simp_all add: P_def)
    show ?thesis
    proof (cases Q)
      case True
      with np rq have nr: "\<not> R" by blast
      from True have "\<bar>h_y b - h_y c\<bar> < 5" by (simp add: Q_def)
      with l have "h_y a \<le> h_y c" by linarith
      with nr show ?thesis unfolding goal by simp
    next
      case False
      with bc' have "h_y b \<le> h_y c" "\<not> \<bar>h_y b - h_y c\<bar> < 5"
        by (simp_all add: Q_def)
      with l have "h_y a \<le> h_y c" "\<not> \<bar>h_y a - h_y c\<bar> < 5" by linarith+
      then show ?thesis unfolding goal R_def by simp
    qed
  qed
qed

lemma set_insertBy: "set (insertBy cmp a bs) = insert a (set bs)"
  by (induction bs) auto

lemma sorted_insertBy:
  assumes "sorted_wrt le bs"
    and total: "\<And>b. b \<in> set bs \<Longrightarrow> cmp a b > 0 \<Longrightarrow> le b a"
    and le: "\<And>b. b \<in> set bs \<Longrightarrow> \<not> cmp a b > 0 \<Longrightarrow> le a b"
    and trans: "\<And>b c. b \<in> set bs \<Longrightarrow> c \<in> set bs \<Longrightarrow> le a b \<Longrightarrow> le b c \<Longrightarrow> le a c"
  shows "sorted_wrt le (insertBy cmp a bs)"
  using assms
proof (induction bs)
  case Nil
  show ?case by simp
next
  case (Cons b bs)
  show ?case
  proof (cases "cmp a b > 0")
    case True
    have "sorted_wrt le (insertBy cmp a bs)"
      using Cons.prems by (intro Cons.IH) auto
    moreover have "le b a"
      using Cons.prems(2) True by simp
    ultimately show ?thesis
      using True Cons.prems(1) by (auto simp: set_insertBy)
  next
    case False
    then have ab: "le a b"
      using Cons.prems(3) by simp
    have "le a c" if "c \<in> set bs" for c
    proof -
      from Cons.prems(1) that have "le b c" by auto
      with ab that show ?thesis
        using Cons.prems(4)[of b c] by simp
    qed
    with ab False Cons.prems(1) show ?thesis
      by auto
  qed
qed

lemma sorted_sortBy_byPosition:
  assumes "\<And>a b c. a \<in> set xs \<Longrightarrow> b \<in> set xs \<Longrightarrow> c \<in> set xs \<Longrightarrow>
      \<bar>h_y a - h_y b\<bar> < 5 \<and> \<bar>h_y b - h_y c\<bar> < 5 \<longrightarrow> \<bar>h_y a - h_y c\<bar> < 5"
  shows "sorted_wrt inReadingOrder (sortBy byPosition xs)"
  using assms
proof (induction xs)
  case Nil
  show ?case by simp
next
  case (Cons a xs)
  have ih: "sorted_wrt inReadingOrder (sortBy byPosition xs)"
  proof (rule Cons.IH)
    fix u v w assume "u \<in> set xs" "v \<in> set xs" "w \<in> set xs"
    then have "u \<in> set (a # xs)" "v \<in> set (a # xs)" "w \<in> set (a # xs)"
      by simp_all
    then show "\<bar>h_y u - h_y v\<bar> < 5 \<and> \<bar>h_y v - h_y w\<bar> < 5 \<longrightarrow> \<bar>h_y u - h_y w\<bar> < 5"
      by (rule Cons.prems)
  qed
  have "sorted_wrt inReadingOrder (insertBy byPosition a (sortBy byPosition xs))"
  proof (rule sorted_insertBy[OF ih])
    fix b assume "b \<in> set (sortBy byPosition xs)" "byPosition a b > 0"
    then show "inReadingOrder b a" by (simp add: byPosition_total)
  next
    fix b assume "b \<in> set (sortBy byPosition xs)" "\<not> byPosition a b > 0"
    then show "inReadingOrder a b" by (simp add: byPosition_le[symmetric])
  next
    fix b c assume m: "b \<in> set (sortBy byPosition xs)" "c \<in> set (sortBy byPosition xs)"
      and o: "inReadingOrder a b" "inReadingOrder b c"
    from m have b: "b \<in> set (a # xs)" and c: "c \<in> set (a # xs)"
      by (simp_all add: set_sortBy)
    have a: "a \<in> set (a # xs)" by simp
    show "inReadingOrder a c"
      by (rule inReadingOrder_trans[OF Cons.prems[OF a b c] Cons.prems[OF b a c]
            Cons.prems[OF a c b] o])
  qed
  then show ?case by simp
qed

lemmas line_eval = lineA_def lineB_def lineC_def regionWide_def pageVt_def

text \<open>
  Claim C8, as amended. Take the \<open>hiddenText\<close> list of a region after association and
  suppose that among its entries "the vertical origins differ by less than 5 pixels" is
  transitive, that is, the entries fall into lines. Then of any two entries the earlier
  one has the smaller or equal x when they are on the same line (origins less than 5
  pixels apart), and the smaller y when they are on different lines.
\<close>

theorem hiddenText_reading_order:
  assumes "r \<in> set (fst (associate scale textItems vt regions assigned))"
    and "\<forall>a\<in>set (hiddenText r). \<forall>b\<in>set (hiddenText r). \<forall>c\<in>set (hiddenText r).
      \<bar>h_y a - h_y b\<bar> < 5 \<and> \<bar>h_y b - h_y c\<bar> < 5 \<longrightarrow> \<bar>h_y a - h_y c\<bar> < 5"
  shows "sorted_wrt inReadingOrder (hiddenText r)"
proof -
  from associate_mem[OF assms(1)] obtain r0 A where
    r: "r = r0\<lparr>hiddenText := fst (findTextInArea scale textItems r0 vt A)\<rparr>"
    by blast
  obtain xs where xs: "hiddenText r = sortBy byPosition xs"
    unfolding r by (simp add: findTextInArea_eq)
  have "\<bar>h_y a - h_y b\<bar> < 5 \<and> \<bar>h_y b - h_y c\<bar> < 5 \<longrightarrow> \<bar>h_y a - h_y c\<bar> < 5"
    if "a \<in> set xs" "b \<in> set xs" "c \<in> set xs" for a b c
    using assms(2) that unfolding xs set_sortBy by blast
  from sorted_sortBy_byPosition[OF this] show ?thesis
    unfolding xs .
qed

theorem hiddenText_reading_order_witness:
  "map h_text (hiddenText (hd (fst (associate (3/2) [lineA, lineB] pageVt [regionWide] {})))) = [''b'', ''a''] \<and>
   sorted_wrt inReadingOrder (hiddenText (hd (fst (associate (3/2) [lineA, lineB] pageVt [regionWide] {}))))"
proof -
  define page where "page = fst (associate (3/2) [lineA, lineB] pageVt [regionWide] {})"
  have e: "page = [regionWide\<lparr>hiddenText :=
      [foundEntry (3/2) pageVt 1 lineB, foundEntry (3/2) pageVt 0 lineA]\<rparr>]"
    unfolding page_def by (simp add: text_eval line_eval)
  have m: "hd page \<in> set page"
    by (simp add: e)
  have h: "hiddenText (hd page) = [foundEntry (3/2) pageVt 1 lineB, foundEntry (3/2) pageVt 0 lineA]"
    by (simp add: e)
  have t: "\<forall>a\<in>set (hiddenText (hd page)). \<forall>b\<in>set (hiddenText (hd page)). \<forall>c\<in>set (hiddenText (hd page)).
      \<bar>h_y a - h_y b\<bar> < 5 \<and> \<bar>h_y b - h_y c\<bar> < 5 \<longrightarrow> \<bar>h_y a - h_y c\<bar> < 5"
    unfolding h by (simp add: foundEntry_def canvasYOf_def line_eval tr3_def tr5_def)
  have "sorted_wrt inReadingOrder (hiddenText (hd page))"
    using hiddenText_reading_order[OF m[unfolded page_def] t[unfolded page_def]]
    unfolding page_def .
  moreover have "map h_text (hiddenText (hd page)) = [''b'', ''a'']"
    unfolding h by (simp add: foundEntry_def line_eval)
  ultimately show ?thesis
    unfolding page_def by simp
qed

text \<open>
  Claim C8 as stated fails. Three fragments under one redaction, on lines 4.5 pixels
  apart and each further left than the one above: the first and the second are on the same
  line, so are the second and the third, but the first and the third are not. The loop of
  \<open>findTextInArea\<close> collects exactly these three entries, and the region's \<open>hiddenText\<close>
  list holds exactly them, in the order the engine's sort leaves them in. Whatever that
  order is, it is one of the six arrangements of the three entries, and none of the six is
  in the claimed order.
\<close>

theorem hiddenText_reading_order_counterexample:
  "fst (findLoop (3/2) [lineA, lineB, lineC] regionWide pageVt 0 ([], {})) =
     [foundEntry (3/2) pageVt 0 lineA, foundEntry (3/2) pageVt 1 lineB, foundEntry (3/2) pageVt 2 lineC] \<and>
   mset (hiddenText (hd (fst (associate (3/2) [lineA, lineB, lineC] pageVt [regionWide] {})))) =
     mset [foundEntry (3/2) pageVt 0 lineA, foundEntry (3/2) pageVt 1 lineB, foundEntry (3/2) pageVt 2 lineC] \<and>
   \<not> sorted_wrt inReadingOrder
       [foundEntry (3/2) pageVt 0 lineA, foundEntry (3/2) pageVt 1 lineB, foundEntry (3/2) pageVt 2 lineC] \<and>
   \<not> sorted_wrt inReadingOrder
       [foundEntry (3/2) pageVt 0 lineA, foundEntry (3/2) pageVt 2 lineC, foundEntry (3/2) pageVt 1 lineB] \<and>
   \<not> sorted_wrt inReadingOrder
       [foundEntry (3/2) pageVt 1 lineB, foundEntry (3/2) pageVt 0 lineA, foundEntry (3/2) pageVt 2 lineC] \<and>
   \<not> sorted_wrt inReadingOrder
       [foundEntry (3/2) pageVt 1 lineB, foundEntry (3/2) pageVt 2 lineC, foundEntry (3/2) pageVt 0 lineA] \<and>
   \<not> sorted_wrt inReadingOrder
       [foundEntry (3/2) pageVt 2 lineC, foundEntry (3/2) pageVt 0 lineA, foundEntry (3/2) pageVt 1 lineB] \<and>
   \<not> sorted_wrt inReadingOrder
       [foundEntry (3/2) pageVt 2 lineC, foundEntry (3/2) pageVt 1 lineB, foundEntry (3/2) pageVt 0 lineA]"
proof -
  let ?hA = "foundEntry (3/2) pageVt 0 lineA" and ?hB = "foundEntry (3/2) pageVt 1 lineB"
    and ?hC = "foundEntry (3/2) pageVt 2 lineC"
  have f: "fst (findLoop (3/2) [lineA, lineB, lineC] regionWide pageVt 0 ([], {})) = [?hA, ?hB, ?hC]"
    by (simp add: text_eval line_eval)
  then obtain used where
    l: "findLoop (3/2) [lineA, lineB, lineC] regionWide pageVt 0 ([], {}) = ([?hA, ?hB, ?hC], used)"
    by (cases "findLoop (3/2) [lineA, lineB, lineC] regionWide pageVt 0 ([], {})") simp
  have "hiddenText (hd (fst (associate (3/2) [lineA, lineB, lineC] pageVt [regionWide] {}))) =
      sortBy byPosition [?hA, ?hB, ?hC]"
    by (simp add: findTextInArea_def l)
  then have m: "mset (hiddenText (hd (fst (associate (3/2) [lineA, lineB, lineC] pageVt [regionWide] {})))) =
      mset [?hA, ?hB, ?hC]"
    by (simp only: mset_sortBy)
  have s: "\<not> sorted_wrt inReadingOrder [?hA, ?hB, ?hC] \<and>
   \<not> sorted_wrt inReadingOrder [?hA, ?hC, ?hB] \<and>
   \<not> sorted_wrt inReadingOrder [?hB, ?hA, ?hC] \<and>
   \<not> sorted_wrt inReadingOrder [?hB, ?hC, ?hA] \<and>
   \<not> sorted_wrt inReadingOrder [?hC, ?hA, ?hB] \<and>
   \<not> sorted_wrt inReadingOrder [?hC, ?hB, ?hA]"
    by (simp add: text_eval line_eval inReadingOrder_def)
  from f m s show ?thesis
    by simp
qed

section \<open>The export threshold against the association threshold\<close>

















section \<open>Properties of the scan\<close>

lemma strided_empty: "hi < lo \<Longrightarrow> 0 < step \<Longrightarrow> strided lo hi step = []"
proof -
  assume a: "hi < lo" "0 < step"
  then have "(hi - lo) div step < 0"
    by (intro div_neg_pos_less0) simp_all
  then show ?thesis
    by (simp add: strided_def)
qed

lemma strided_step:
  assumes "lo \<le> hi" "0 < step"
  shows "strided lo hi step = lo # strided (lo + step) hi step"
proof -
  define n where "n = nat ((hi - (lo + step)) div step + 1)"
  have d: "(hi - lo) div step = (hi - (lo + step)) div step + 1"
  proof -
    have "hi - lo = (hi - (lo + step)) + 1 * step" by simp
    then have "(hi - lo) div step = ((hi - (lo + step)) + 1 * step) div step" by simp
    also have "\<dots> = (hi - (lo + step)) div step + 1"
      using assms(2) by (subst div_mult_self1) simp_all
    finally show ?thesis .
  qed
  have nn: "0 \<le> (hi - lo) div step"
    using assms by (simp add: pos_imp_zdiv_nonneg_iff)
  have "nat ((hi - lo) div step + 1) = Suc n"
    unfolding n_def using d nn by simp
  then have "strided lo hi step = map (\<lambda>k. lo + int k * step) [0..<Suc n]"
    by (simp add: strided_def)
  also have "[0..<Suc n] = 0 # map Suc [0..<n]"
    by (simp add: upt_conv_Cons map_Suc_upt del: upt_Suc)
  also have "map (\<lambda>k. lo + int k * step) (0 # map Suc [0..<n]) =
      lo # map (\<lambda>k. (lo + step) + int k * step) [0..<n]"
    by (simp add: algebra_simps)
  finally show ?thesis
    by (simp add: strided_def n_def)
qed

lemma countRow_eq:
  "countRow img maxX vy vx (b, t) =
     (b + length (filter (\<lambda>vx. isBlack img vx vy) (strided vx maxX 2)),
      t + length (strided vx maxX 2))"
proof (induction img maxX vy vx "(b, t)" arbitrary: b t rule: countRow.induct)
  case (1 img maxX vy vx b t)
  show ?case
  proof (cases "vx \<le> maxX")
    case True
    then show ?thesis
      using "1.hyps"[OF True] by (simp add: countRow.simps[of _ _ _ vx] strided_step)
  next
    case False
    then show ?thesis
      by (simp add: countRow.simps[of _ _ _ vx] strided_empty)
  qed
qed

lemma boxSamples_step:
  "minY \<le> maxY \<Longrightarrow> boxSamples minX maxX minY maxY =
     map (\<lambda>vx. (vx, minY)) (strided minX maxX 2) @ boxSamples minX maxX (minY + 2) maxY"
  by (simp add: boxSamples_def strided_step)

lemma boxSamples_empty: "maxY < minY \<Longrightarrow> boxSamples minX maxX minY maxY = []"
  by (simp add: boxSamples_def strided_empty)

lemma countRows_eq:
  "countRows img minX maxX maxY vy (b, t) =
     (b + length (filter (\<lambda>(vx, vy). isBlack img vx vy) (boxSamples minX maxX vy maxY)),
      t + length (boxSamples minX maxX vy maxY))"
proof (induction img minX maxX maxY vy "(b, t)" arbitrary: b t rule: countRows.induct)
  case (1 img minX maxX maxY vy b t)
  show ?case
  proof (cases "vy \<le> maxY")
    case True
    have f: "filter (\<lambda>(vx, vy). isBlack img vx vy) (map (\<lambda>vx. (vx, vy)) (strided minX maxX 2))
        = map (\<lambda>vx. (vx, vy)) (filter (\<lambda>vx. isBlack img vx vy) (strided minX maxX 2))"
      by (simp add: filter_map comp_def)
    show ?thesis
      using "1.hyps"[OF True countRow_eq] True
      by (simp add: countRows.simps[of _ _ _ _ vy] countRow_eq boxSamples_step f)
  next
    case False
    then show ?thesis
      by (simp add: countRows.simps[of _ _ _ _ vy] boxSamples_empty)
  qed
qed

lemma seedStep_emitted:
  assumes "seedStep s p img x y (reds, vis) = (reds', vis')" "\<forall>r\<in>set reds. emitted img r"
  shows "\<forall>r\<in>set reds'. emitted img r"
proof (cases "(x, y) \<notin> vis \<and> isBlack img x y")
  case False
  with assms show ?thesis
    by (auto simp: seedStep_def split: if_splits)
next
  case True
  define minX where "minX = expandLeft img y x"
  define maxX where "maxX = expandRight img y x"
  define minY where "minY = expandUp img minX maxX y"
  define maxY where "maxY = expandDown img minX maxX y"
  define r where "r = newRedaction s p minX minY (maxX - minX) (maxY - minY)"
  have c: "countRows img minX maxX maxY minY (0, 0) =
      (length (filter (\<lambda>(vx, vy). isBlack img vx vy) (boxSamples minX maxX minY maxY)),
       length (boxSamples minX maxX minY maxY))"
    by (simp add: countRows_eq)
  have "reds' = reds \<or> (reds' = reds @ [r] \<and> maxX - minX \<ge> 20 \<and> maxY - minY \<ge> 8 \<and>
      sampledDensity img minX maxX minY maxY > 85/100)"
    using assms(1) True
    unfolding seedStep_def Let_def minX_def[symmetric] maxX_def[symmetric] minY_def[symmetric]
      maxY_def[symmetric] c r_def sampledDensity_def minRedactionSize_def
    by (auto split: if_splits)
  moreover have "emitted img r"
    if "maxX - minX \<ge> 20" "maxY - minY \<ge> 8" "sampledDensity img minX maxX minY maxY > 85/100"
    using that by (simp add: emitted_def r_def newRedaction_def)
  ultimately show ?thesis
    using assms(2) by auto
qed

lemma scanRow_emitted:
  "scanRow s p img y x st = (reds', vis') \<Longrightarrow> \<forall>r\<in>set (fst st). emitted img r \<Longrightarrow>
     \<forall>r\<in>set reds'. emitted img r"
proof (induction s p img y x st rule: scanRow.induct)
  case (1 s p img y x st)
  show ?case
  proof (cases "x < int (i_width img)")
    case True
    obtain reds1 vis1 where e: "seedStep s p img x y st = (reds1, vis1)"
      by (metis surj_pair)
    have "\<forall>r\<in>set reds1. emitted img r"
      using seedStep_emitted[of s p img x y "fst st" "snd st"] e "1.prems"(2) by simp
    with "1.IH"[OF True] "1.prems"(1) True e show ?thesis
      by (simp add: scanRow.simps[of _ _ _ _ x])
  next
    case False
    with "1.prems" show ?thesis
      by (simp add: scanRow.simps[of _ _ _ _ x])
  qed
qed

lemma scanRows_emitted:
  "scanRows s p img y st = (reds', vis') \<Longrightarrow> \<forall>r\<in>set (fst st). emitted img r \<Longrightarrow>
     \<forall>r\<in>set reds'. emitted img r"
proof (induction s p img y st rule: scanRows.induct)
  case (1 s p img y st)
  show ?case
  proof (cases "y < int (i_height img)")
    case True
    obtain reds1 vis1 where e: "scanRow s p img y 0 st = (reds1, vis1)"
      by (metis surj_pair)
    have "\<forall>r\<in>set reds1. emitted img r"
      using scanRow_emitted[OF e "1.prems"(2)] .
    with "1.IH"[OF True] "1.prems"(1) True e show ?thesis
      by (simp add: scanRows.simps[of _ _ _ y])
  next
    case False
    with "1.prems" show ?thesis
      by (simp add: scanRows.simps[of _ _ _ y])
  qed
qed

lemma seedStep_not_black: "\<not> isBlack img x y \<Longrightarrow> seedStep s p img x y st = st"
  by (cases st) (simp add: seedStep_def)

lemma seedStep_visited: "(x, y) \<in> snd st \<Longrightarrow> seedStep s p img x y st = st"
  by (cases st) (simp add: seedStep_def)

lemma scanRow_no_black: "noBlack img \<Longrightarrow> scanRow s p img y x st = st"
proof (induction s p img y x st rule: scanRow.induct)
  case (1 s p img y x st)
  then show ?case
    by (cases "x < int (i_width img)")
      (simp_all add: scanRow.simps[of _ _ _ _ x] seedStep_not_black noBlack_def)
qed

lemma scanRows_no_black: "noBlack img \<Longrightarrow> scanRows s p img y st = st"
proof (induction s p img y st rule: scanRows.induct)
  case (1 s p img y st)
  then show ?case
    by (cases "y < int (i_height img)")
      (simp_all add: scanRows.simps[of _ _ _ y] scanRow_no_black)
qed

lemma expandLeft_black:
  "allBlack img \<Longrightarrow> 0 \<le> x \<Longrightarrow> x < int (i_width img) \<Longrightarrow> 0 \<le> y \<Longrightarrow> y < int (i_height img) \<Longrightarrow>
     expandLeft img y x = 0"
proof (induction img y x rule: expandLeft.induct)
  case (1 img y minX)
  show ?case
  proof (cases "minX > 0")
    case True
    with "1.prems" have b: "isBlack img (minX - 1) y"
      by (simp add: allBlack_def)
    with True "1.IH" "1.prems" show ?thesis
      by (simp add: expandLeft.simps[of _ _ minX])
  next
    case False
    with "1.prems" show ?thesis
      by (subst expandLeft.simps) simp
  qed
qed

lemma expandRight_black:
  "allBlack img \<Longrightarrow> 0 \<le> x \<Longrightarrow> x < int (i_width img) \<Longrightarrow> 0 \<le> y \<Longrightarrow> y < int (i_height img) \<Longrightarrow>
     expandRight img y x = int (i_width img) - 1"
proof (induction img y x rule: expandRight.induct)
  case (1 img y maxX)
  show ?case
  proof (cases "maxX < int (i_width img) - 1")
    case True
    with "1.prems" have b: "isBlack img (maxX + 1) y"
      by (simp add: allBlack_def)
    with True "1.IH" "1.prems" show ?thesis
      by (simp add: expandRight.simps[of _ _ maxX])
  next
    case False
    with "1.prems" show ?thesis
      by (simp add: expandRight.simps[of _ _ maxX])
  qed
qed

lemma rowAllBlack_black:
  "allBlack img \<Longrightarrow> 0 \<le> tx \<Longrightarrow> maxX < int (i_width img) \<Longrightarrow> 0 \<le> row \<Longrightarrow>
     row < int (i_height img) \<Longrightarrow> rowAllBlack img maxX row tx"
proof (induction img maxX row tx rule: rowAllBlack.induct)
  case (1 img maxX row tx)
  show ?case
  proof (cases "tx \<le> maxX")
    case True
    with "1.prems" have b: "isBlack img tx row"
      by (simp add: allBlack_def)
    with True "1.IH" "1.prems" show ?thesis
      by (simp add: rowAllBlack.simps[of _ _ _ tx])
  next
    case False
    then show ?thesis
      by (simp add: rowAllBlack.simps[of _ _ _ tx])
  qed
qed

lemma expandUp_black:
  "allBlack img \<Longrightarrow> 0 \<le> minX \<Longrightarrow> maxX < int (i_width img) \<Longrightarrow> 0 \<le> y \<Longrightarrow>
     y < int (i_height img) \<Longrightarrow> expandUp img minX maxX y = 0"
proof (induction img minX maxX y rule: expandUp.induct)
  case (1 img minX maxX minY)
  show ?case
  proof (cases "minY > 0")
    case True
    with "1.prems" have b: "rowAllBlack img maxX (minY - 1) minX"
      by (intro rowAllBlack_black) simp_all
    with True "1.IH" "1.prems" show ?thesis
      by (simp add: expandUp.simps[of _ _ _ minY])
  next
    case False
    with "1.prems" show ?thesis
      by (subst expandUp.simps) simp
  qed
qed

lemma expandDown_black:
  "allBlack img \<Longrightarrow> 0 \<le> minX \<Longrightarrow> maxX < int (i_width img) \<Longrightarrow> 0 \<le> y \<Longrightarrow>
     y < int (i_height img) \<Longrightarrow> expandDown img minX maxX y = int (i_height img) - 1"
proof (induction img minX maxX y rule: expandDown.induct)
  case (1 img minX maxX maxY)
  show ?case
  proof (cases "maxY < int (i_height img) - 1")
    case True
    with "1.prems" have b: "rowAllBlack img maxX (maxY + 1) minX"
      by (intro rowAllBlack_black) simp_all
    with True "1.IH" "1.prems" show ?thesis
      by (simp add: expandDown.simps[of _ _ _ maxY])
  next
    case False
    with "1.prems" show ?thesis
      by (simp add: expandDown.simps[of _ _ _ maxY])
  qed
qed

lemma markRow_mem:
  "(a, b) \<in> markRow maxX vy vx V \<longleftrightarrow>
     (a, b) \<in> V \<or> (b = vy \<and> vx \<le> a \<and> a \<le> maxX \<and> (a - vx) mod 5 = 0)"
proof (induction maxX vy vx V rule: markRow.induct)
  case (1 maxX vy vx V)
  show ?case
  proof (cases "vx \<le> maxX")
    case True
    have "(vx \<le> a \<and> (a - vx) mod 5 = 0) \<longleftrightarrow> (a = vx \<or> (vx + 5 \<le> a \<and> (a - (vx + 5)) mod 5 = 0))"
      by presburger
    with True "1.IH"[OF True] show ?thesis
      by (auto simp: markRow.simps[of _ _ vx])
  next
    case False
    then show ?thesis
      by (auto simp: markRow.simps[of _ _ vx])
  qed
qed

lemma markRows_mem:
  "(a, b) \<in> markRows minX maxX maxY vy V \<longleftrightarrow>
     (a, b) \<in> V \<or> (vy \<le> b \<and> b \<le> maxY \<and> (b - vy) mod 5 = 0 \<and>
                   minX \<le> a \<and> a \<le> maxX \<and> (a - minX) mod 5 = 0)"
proof (induction minX maxX maxY vy V rule: markRows.induct)
  case (1 minX maxX maxY vy V)
  show ?case
  proof (cases "vy \<le> maxY")
    case True
    have "(vy \<le> b \<and> (b - vy) mod 5 = 0) \<longleftrightarrow> (b = vy \<or> (vy + 5 \<le> b \<and> (b - (vy + 5)) mod 5 = 0))"
      by presburger
    with True "1.IH"[OF True] show ?thesis
      by (auto simp: markRows.simps[of _ _ _ vy] markRow_mem)
  next
    case False
    then show ?thesis
      by (auto simp: markRows.simps[of _ _ _ vy])
  qed
qed

lemma countRow_black:
  "allBlack img \<Longrightarrow> 0 \<le> vx \<Longrightarrow> maxX < int (i_width img) \<Longrightarrow> 0 \<le> vy \<Longrightarrow>
     vy < int (i_height img) \<Longrightarrow>
     \<exists>n. countRow img maxX vy vx (b, t) = (b + n, t + n) \<and> (vx \<le> maxX \<longrightarrow> 0 < n)"
proof (induction img maxX vy vx "(b, t)" arbitrary: b t rule: countRow.induct)
  case (1 img maxX vy vx b t)
  show ?case
  proof (cases "vx \<le> maxX")
    case True
    with "1.prems" have bl: "isBlack img vx vy"
      by (simp add: allBlack_def)
    from "1.hyps"[OF True] bl "1.prems"
    obtain n where "countRow img maxX vy (vx + 2) (b + 1, t + 1) = (b + 1 + n, t + 1 + n)"
      by auto
    with True bl show ?thesis
      by (intro exI[of _ "Suc n"]) (simp add: countRow.simps[of _ _ _ vx])
  next
    case False
    then show ?thesis
      by (intro exI[of _ 0]) (simp add: countRow.simps[of _ _ _ vx])
  qed
qed

lemma countRows_black:
  "allBlack img \<Longrightarrow> 0 \<le> minX \<Longrightarrow> maxX < int (i_width img) \<Longrightarrow> 0 \<le> vy \<Longrightarrow>
     maxY < int (i_height img) \<Longrightarrow>
     \<exists>n. countRows img minX maxX maxY vy (b, t) = (b + n, t + n) \<and>
         (vy \<le> maxY \<and> minX \<le> maxX \<longrightarrow> 0 < n)"
proof (induction img minX maxX maxY vy "(b, t)" arbitrary: b t rule: countRows.induct)
  case (1 img minX maxX maxY vy b t)
  show ?case
  proof (cases "vy \<le> maxY")
    case True
    with "1.prems" have "vy < int (i_height img)" by simp
    from countRow_black[OF "1.prems"(1,2,3,4) this, of b t]
    obtain n1 where n1: "countRow img maxX vy minX (b, t) = (b + n1, t + n1)"
      "minX \<le> maxX \<longrightarrow> 0 < n1"
      by blast
    from "1.hyps"[OF True n1(1)] "1.prems"
    obtain n2 where n2: "countRows img minX maxX maxY (vy + 2) (b + n1, t + n1) = (b + n1 + n2, t + n1 + n2)"
      by auto
    with True n1 show ?thesis
      by (intro exI[of _ "n1 + n2"]) (simp add: countRows.simps[of _ _ _ _ vy])
  next
    case False
    then show ?thesis
      by (intro exI[of _ 0]) (simp add: countRows.simps[of _ _ _ _ vy])
  qed
qed

lemma seedStep_black_origin:
  assumes ab: "allBlack img" and w: "20 \<le> int (i_width img) - 1" and h: "8 \<le> int (i_height img) - 1"
  shows "seedStep s p img 0 0 ([], {}) =
     ([newRedaction s p 0 0 (int (i_width img) - 1) (int (i_height img) - 1)],
      markRows 0 (int (i_width img) - 1) (int (i_height img) - 1) 0 {})"
proof -
  let ?W = "int (i_width img)" and ?H = "int (i_height img)"
  from w h have pos: "0 < ?W" "0 < ?H" by simp_all
  have b: "isBlack img 0 0"
    using ab pos by (simp add: allBlack_def)
  have l: "expandLeft img 0 0 = 0"
    using ab pos by (intro expandLeft_black) simp_all
  have r: "expandRight img 0 0 = ?W - 1"
    using ab pos by (intro expandRight_black) simp_all
  have u: "expandUp img 0 (?W - 1) 0 = 0"
    using ab pos by (intro expandUp_black) simp_all
  have d: "expandDown img 0 (?W - 1) 0 = ?H - 1"
    using ab pos by (intro expandDown_black) simp_all
  from countRows_black[OF ab, of 0 "?W - 1" 0 "?H - 1" 0 0] pos
  obtain n where n: "countRows img 0 (?W - 1) (?H - 1) 0 (0, 0) = (n, n)" "0 < n"
    by auto
  from n(2) have q: "(of_nat n :: rat) / of_nat n = 1"
    by simp
  show ?thesis
    using w h n(2) by (simp add: seedStep_def b l r u d n(1) q minRedactionSize_def Let_def)
qed

lemma scanRow_skip:
  "0 \<le> x \<Longrightarrow> x mod 5 = 0 \<Longrightarrow>
   (\<forall>a. 0 \<le> a \<and> a < int (i_width img) \<and> a mod 5 = 0 \<longrightarrow> (a, y) \<in> snd st) \<Longrightarrow>
     scanRow s p img y x st = st"
proof (induction s p img y x st rule: scanRow.induct)
  case (1 s p img y x st)
  show ?case
  proof (cases "x < int (i_width img)")
    case True
    with "1.prems" have "(x, y) \<in> snd st" by simp
    then have e: "seedStep s p img x y st = st"
      by (rule seedStep_visited)
    have "(x + 5) mod 5 = 0"
      using "1.prems"(2) by presburger
    with "1.IH"[OF True] "1.prems" e have "scanRow s p img y (x + 5) st = st"
      by simp
    with True e show ?thesis
      by (simp add: scanRow.simps[of _ _ _ _ x])
  next
    case False
    then show ?thesis
      by (simp add: scanRow.simps[of _ _ _ _ x])
  qed
qed

lemma scanRows_skip:
  "0 \<le> y \<Longrightarrow> y mod 5 = 0 \<Longrightarrow>
   (\<forall>a b. 0 \<le> a \<and> a < int (i_width img) \<and> a mod 5 = 0 \<and>
          0 \<le> b \<and> b < int (i_height img) \<and> b mod 5 = 0 \<longrightarrow> (a, b) \<in> snd st) \<Longrightarrow>
     scanRows s p img y st = st"
proof (induction s p img y st rule: scanRows.induct)
  case (1 s p img y st)
  show ?case
  proof (cases "y < int (i_height img)")
    case True
    with "1.prems" have "\<forall>a. 0 \<le> a \<and> a < int (i_width img) \<and> a mod 5 = 0 \<longrightarrow> (a, y) \<in> snd st"
      by simp
    then have e: "scanRow s p img y 0 st = st"
      by (intro scanRow_skip) simp_all
    have "(y + 5) mod 5 = 0"
      using "1.prems"(2) by presburger
    with "1.IH"[OF True] "1.prems" e have "scanRows s p img (y + 5) st = st"
      by simp
    with True e show ?thesis
      by (simp add: scanRows.simps[of _ _ _ y])
  next
    case False
    then show ?thesis
      by (simp add: scanRows.simps[of _ _ _ y])
  qed
qed

lemma scan_all_black:
  assumes ab: "allBlack img" and w: "20 \<le> int (i_width img) - 1" and h: "8 \<le> int (i_height img) - 1"
  shows "scan s p img = [newRedaction s p 0 0 (int (i_width img) - 1) (int (i_height img) - 1)]"
proof -
  let ?W = "int (i_width img)" and ?H = "int (i_height img)"
  let ?r = "newRedaction s p 0 0 (?W - 1) (?H - 1)"
  let ?V = "markRows 0 (?W - 1) (?H - 1) 0 {}"
  from w h have pos: "0 < ?W" "0 < ?H" by simp_all
  have v: "(a, b) \<in> ?V" if "0 \<le> a" "a < ?W" "a mod 5 = 0" "0 \<le> b" "b < ?H" "b mod 5 = 0" for a b
    using that by (simp add: markRows_mem)
  have "scanRow s p img 0 0 ([], {}) = scanRow s p img 0 5 ([?r], ?V)"
    using pos by (simp add: scanRow.simps[of _ _ _ _ 0] seedStep_black_origin[OF ab w h])
  also have "\<dots> = ([?r], ?V)"
    using v pos by (intro scanRow_skip) simp_all
  finally have first: "scanRow s p img 0 0 ([], {}) = ([?r], ?V)" .
  have "scanRows s p img 0 ([], {}) = scanRows s p img 5 ([?r], ?V)"
    using pos by (simp add: scanRows.simps[of _ _ _ 0] first)
  also have "\<dots> = ([?r], ?V)"
    using v by (intro scanRows_skip) simp_all
  finally show ?thesis
    by (simp add: scan_def)
qed

lemma length_concat_replicate: "length (concat (replicate n p)) = n * length p"
  by (induction n) simp_all

lemma nth_concat_replicate:
  "k < n \<Longrightarrow> c < length p \<Longrightarrow> concat (replicate n p) ! (k * length p + c) = p ! c"
proof (induction n arbitrary: k)
  case 0
  then show ?case by simp
next
  case (Suc n)
  show ?case
  proof (cases k)
    case 0
    with Suc.prems show ?thesis
      by (simp add: nth_append)
  next
    case (Suc k')
    with Suc.prems Suc.IH[of k'] show ?thesis
      by (simp add: nth_append add.assoc)
  qed
qed

lemma pixel_index:
  assumes "0 \<le> x" "x < int w" "0 \<le> y" "y < int h"
  shows "nat ((y * int w + x) * 4) = nat (y * int w + x) * 4" and "nat (y * int w + x) < w * h"
proof -
  show "nat ((y * int w + x) * 4) = nat (y * int w + x) * 4"
    using assms by (simp add: nat_mult_distrib)
  have "y + 1 \<le> int h" using assms by simp
  then have "(y + 1) * int w \<le> int h * int w"
    by (intro mult_right_mono) simp_all
  then have "y * int w + x < int h * int w"
    using assms by (simp add: algebra_simps)
  then have "y * int w + x < int (w * h)"
    by (simp add: mult.commute)
  moreover have "0 \<le> y * int w + x"
    using assms by simp
  ultimately show "nat (y * int w + x) < w * h"
    by linarith
qed

lemma isBlack_uniform:
  assumes d: "i_data img = concat (replicate (i_width img * i_height img) [r, g, b, a]) @ extra"
    and x: "0 \<le> x" "x < int (i_width img)" and y: "0 \<le> y" "y < int (i_height img)"
  shows "isBlack img x y \<longleftrightarrow> r < 30 \<and> g < 30 \<and> b < 30"
proof -
  let ?k = "nat (y * int (i_width img) + x)"
  let ?n = "i_width img * i_height img"
  note pi = pixel_index[OF x y]
  define px where "px = [r, g, b, a]"
  have lp: "length px = 4" by (simp add: px_def)
  have len: "?k * 4 + c < length (concat (replicate ?n px))" if "c < 4" for c
    using pi(2) that by (simp add: length_concat_replicate lp)
  have "concat (replicate ?n px) ! (?k * length px + c) = px ! c" if "c < 4" for c
    using pi(2) that by (intro nth_concat_replicate) (simp_all add: lp)
  then have nth0: "concat (replicate ?n px) ! (?k * 4 + c) = px ! c" if "c < 4" for c
    using that unfolding lp by blast
  have nth: "i_data img ! (?k * 4 + c) = px ! c" if "c < 4" for c
    using nth0[OF that] len[OF that] unfolding d px_def[symmetric] by (simp add: nth_append)
  have ld: "?k * 4 + c < length (i_data img)" if "c < 4" for c
    using len[OF that] unfolding d px_def[symmetric] by simp
  have bt: "belowThreshold (i_data img) (?k * 4 + c) \<longleftrightarrow> px ! c < 30" if "c < 4" for c
    using nth[OF that] ld[OF that] by (simp add: belowThreshold_def blackThreshold_def)
  have p0: "px ! 0 = r" "px ! 1 = g" "px ! 2 = b"
    by (simp_all add: px_def)
  have b0: "belowThreshold (i_data img) (?k * 4) \<longleftrightarrow> r < 30"
    using bt[of 0] p0 by simp
  have b1: "belowThreshold (i_data img) (?k * 4 + 1) \<longleftrightarrow> g < 30"
    using bt[of 1] p0 by simp
  have b2: "belowThreshold (i_data img) (?k * 4 + 2) \<longleftrightarrow> b < 30"
    using bt[of 2] p0 by simp
  show ?thesis
    unfolding isBlack_def Let_def pi(1) b0 b1 b2 using x y by simp
qed

lemma allBlack_solid: "r < 30 \<Longrightarrow> g < 30 \<Longrightarrow> b < 30 \<Longrightarrow> allBlack (solidImage w h [r, g, b, a])"
  unfolding allBlack_def
  using isBlack_uniform[of "solidImage w h [r, g, b, a]" r g b a "[]"]
  by (simp add: solidImage_def)

lemma allBlack_padded: "r < 30 \<Longrightarrow> g < 30 \<Longrightarrow> b < 30 \<Longrightarrow> allBlack (paddedImage w h [r, g, b, a])"
  unfolding allBlack_def
  using isBlack_uniform[of "paddedImage w h [r, g, b, a]" r g b a "[255, 255, 255, 255]"]
  by (simp add: paddedImage_def)

lemma noBlack_solid: "30 \<le> r \<Longrightarrow> noBlack (solidImage w h [r, g, b, a])"
  unfolding noBlack_def
proof (intro allI)
  fix x y
  let ?img = "solidImage w h [r, g, b, a]"
  assume r: "30 \<le> r"
  show "\<not> isBlack ?img x y"
  proof (cases "0 \<le> x \<and> x < int (i_width ?img) \<and> 0 \<le> y \<and> y < int (i_height ?img)")
    case True
    then show ?thesis
      using isBlack_uniform[of ?img r g b a "[]" x y] r by (simp add: solidImage_def)
  next
    case False
    then show ?thesis
      by (auto simp: isBlack_def)
  qed
qed

lemma noBlack_empty: "i_width img = 0 \<or> i_height img = 0 \<Longrightarrow> noBlack img"
  by (auto simp: noBlack_def isBlack_def)

text \<open>
  Claim C5. Every rectangle the scan emits, before merging, has a width of at least 20
  and a height of at least 8, and the density of black samples over its box, sampled at
  a stride of 2 pixels in both axes, is strictly greater than 0.85; so a box of density
  0.85 or less is not emitted. The box runs from \<open>x\<close> to \<open>x + width\<close> and from \<open>y\<close> to
  \<open>y + height\<close>, both ends included, as the code's \<open>minX..maxX\<close> and \<open>minY..maxY\<close> do.
\<close>

theorem scan_emits:
  "\<forall>r\<in>set (scan scale pageNum img).
     r_width r \<ge> 20 \<and> r_height r \<ge> 8 \<and>
     sampledDensity img (r_x r) (r_x r + r_width r) (r_y r) (r_y r + r_height r) > 85/100"
proof -
  obtain reds vis where e: "scanRows scale pageNum img 0 ([], {}) = (reds, vis)"
    by (metis surj_pair)
  from scanRows_emitted[OF e] have "\<forall>r\<in>set reds. emitted img r"
    by simp
  with e show ?thesis
    by (simp add: scan_def emitted_def)
qed

theorem scan_emits_witness:
  "scan (3/2) 1 (solidImage 21 9 [0, 0, 0, 255]) = [newRedaction (3/2) 1 0 0 20 8] \<and>
   r_width (newRedaction (3/2) 1 0 0 20 8) \<ge> 20 \<and> r_height (newRedaction (3/2) 1 0 0 20 8) \<ge> 8 \<and>
   sampledDensity (solidImage 21 9 [0, 0, 0, 255]) 0 20 0 8 > 85/100"
proof -
  let ?img = "solidImage 21 9 [0, 0, 0, 255]"
  have ab: "allBlack ?img"
    by (rule allBlack_solid) simp_all
  have e: "scan (3/2) 1 ?img = [newRedaction (3/2) 1 0 0 20 8]"
    using scan_all_black[OF ab, of "3/2" 1] by (simp add: solidImage_def)
  from scan_emits[of "3/2" 1 ?img] show ?thesis
    unfolding e by (simp add: newRedaction_def)
qed

text \<open>
  Claim C9. A buffer with no black pixel yields the empty list. A completely black buffer
  that passes the size filter, which the code applies to \<open>maxX - minX = W - 1\<close> and
  \<open>maxY - minY = H - 1\<close>, yields exactly one region: the box from \<open>(0, 0)\<close> to the last
  column \<open>W - 1\<close> and the last row \<open>H - 1\<close>.
\<close>

theorem detectRedactions_edge_cases:
  "(noBlack img \<longrightarrow> detectRedactions scale pageNum img = []) \<and>
   (allBlack img \<and> 20 \<le> int (i_width img) - 1 \<and> 8 \<le> int (i_height img) - 1 \<longrightarrow>
      detectRedactions scale pageNum img =
        [newRedaction scale pageNum 0 0 (int (i_width img) - 1) (int (i_height img) - 1)])"
proof (intro conjI impI)
  assume "noBlack img"
  then show "detectRedactions scale pageNum img = []"
    by (simp add: detectRedactions_def scan_def scanRows_no_black mergeRedactions_def)
next
  assume "allBlack img \<and> 20 \<le> int (i_width img) - 1 \<and> 8 \<le> int (i_height img) - 1"
  then show "detectRedactions scale pageNum img =
        [newRedaction scale pageNum 0 0 (int (i_width img) - 1) (int (i_height img) - 1)]"
    by (simp add: detectRedactions_def scan_all_black mergeRedactions_def)
qed

theorem detectRedactions_edge_cases_witness:
  "noBlack (solidImage 30 12 [255, 255, 255, 255]) \<and>
   detectRedactions (3/2) 1 (solidImage 30 12 [255, 255, 255, 255]) = [] \<and>
   allBlack (solidImage 30 12 [0, 0, 0, 255]) \<and>
   map box (detectRedactions (3/2) 1 (solidImage 30 12 [0, 0, 0, 255])) = [(0, 0, 29, 11)]"
proof -
  have n: "noBlack (solidImage 30 12 [255, 255, 255, 255])"
    by (rule noBlack_solid) simp
  have a: "allBlack (solidImage 30 12 [0, 0, 0, 255])"
    by (rule allBlack_solid) simp_all
  from detectRedactions_edge_cases[of "solidImage 30 12 [255, 255, 255, 255]" "3/2" 1] n
  have 1: "detectRedactions (3/2) 1 (solidImage 30 12 [255, 255, 255, 255]) = []"
    by blast
  from detectRedactions_edge_cases[of "solidImage 30 12 [0, 0, 0, 255]" "3/2" 1] a
  have 2: "detectRedactions (3/2) 1 (solidImage 30 12 [0, 0, 0, 255]) =
      [newRedaction (3/2) 1 0 0 29 11]"
    by (simp add: solidImage_def)
  from n a 1 show ?thesis
    unfolding 2 by (simp add: box_def newRedaction_def)
qed

text \<open>
  Claim C4, as amended. \<open>detectRedactions\<close> validates nothing and raises no error. On a
  buffer of zero width or zero height it returns the empty list. Where the sample array
  is too short for a pixel, the missing samples read as \<open>undefined\<close> and the pixel is not
  black.
\<close>

theorem detectRedactions_no_validation:
  "(i_width img = 0 \<or> i_height img = 0 \<longrightarrow> detectRedactions scale pageNum img = []) \<and>
   (\<forall>x y. length (i_data img) \<le> nat ((y * int (i_width img) + x) * 4) + 2 \<longrightarrow> \<not> isBlack img x y)"
proof (intro conjI impI allI)
  assume "i_width img = 0 \<or> i_height img = 0"
  then have "noBlack img"
    by (rule noBlack_empty)
  then show "detectRedactions scale pageNum img = []"
    by (simp add: detectRedactions_def scan_def scanRows_no_black mergeRedactions_def)
next
  fix x y
  assume "length (i_data img) \<le> nat ((y * int (i_width img) + x) * 4) + 2"
  then have "\<not> belowThreshold (i_data img) (nat ((y * int (i_width img) + x) * 4) + 2)"
    by (simp add: belowThreshold_def)
  then show "\<not> isBlack img x y"
    by (simp add: isBlack_def Let_def)
qed

theorem detectRedactions_no_validation_witness:
  "detectRedactions (3/2) 1 \<lparr> i_data = [], i_width = 0, i_height = 7 \<rparr> = [] \<and>
   \<not> isBlack \<lparr> i_data = [0, 0], i_width = 1, i_height = 1 \<rparr> 0 0"
  using detectRedactions_no_validation[of "\<lparr> i_data = [], i_width = 0, i_height = 7 \<rparr>" "3/2" 1]
    detectRedactions_no_validation[of "\<lparr> i_data = [0, 0], i_width = 1, i_height = 1 \<rparr>" "3/2" 1]
  by simp

text \<open>
  Claim C4 as stated fails. A 30 by 12 black buffer whose sample array is four samples
  too long is invalid in the specification's sense, yet the analysis returns its one
  region; the buffer of zero dimensions is invalid too, and the analysis returns the empty
  list.
\<close>

theorem detectRedactions_no_validation_counterexample:
  "invalidBuffer (paddedImage 30 12 [0, 0, 0, 255]) \<and>
   map box (detectRedactions (3/2) 1 (paddedImage 30 12 [0, 0, 0, 255])) = [(0, 0, 29, 11)] \<and>
   invalidBuffer \<lparr> i_data = [], i_width = 0, i_height = 0 \<rparr> \<and>
   detectRedactions (3/2) 1 \<lparr> i_data = [], i_width = 0, i_height = 0 \<rparr> = []"
proof -
  let ?img = "paddedImage 30 12 [0, 0, 0, 255]"
  have a: "allBlack ?img"
    by (rule allBlack_padded) simp_all
  have "scan (3/2) 1 ?img = [newRedaction (3/2) 1 0 0 29 11]"
    using scan_all_black[OF a, of "3/2" 1] by (simp add: paddedImage_def)
  then have 1: "map box (detectRedactions (3/2) 1 ?img) = [(0, 0, 29, 11)]"
    by (simp add: detectRedactions_def mergeRedactions_def box_def newRedaction_def)
  have 2: "invalidBuffer ?img"
    by (simp add: invalidBuffer_def paddedImage_def length_concat_replicate)
  have "noBlack \<lparr> i_data = [], i_width = 0, i_height = 0 \<rparr>"
    by (rule noBlack_empty) simp
  then have 3: "detectRedactions (3/2) 1 \<lparr> i_data = [], i_width = 0, i_height = 0 \<rparr> = []"
    by (simp add: detectRedactions_def scan_def scanRows_no_black mergeRedactions_def)
  have 4: "invalidBuffer \<lparr> i_data = [], i_width = 0, i_height = 0 \<rparr>"
    by (simp add: invalidBuffer_def)
  from 1 2 3 4 show ?thesis by blast
qed

end
